theory Spec2Isabelle
  imports Main "HOL-Library.Multiset"
begin

section \<open>CellState\<close>

text \<open>
  The class \<open>CellState\<close> of \<open>minesweeper.js\<close>: four semantic fields and two cached
  strings, \<open>currentState\<close> (what is displayed) and \<open>defaultState\<close> (what is displayed
  once the cell is opened).
\<close>

record CellState =
  isMine :: bool
  isFlagged :: bool
  isOpened :: bool
  adjacentMines :: int
  currentState :: string
  defaultState :: string

definition ESC :: char where
  "ESC = CHR 0x1B"

definition UNOPENED :: string where
  "UNOPENED = ''X''"

definition FLAGGED :: string where
  "FLAGGED = ESC # ''[33mF'' @ ESC # ''[0m''"

definition MINE :: string where
  "MINE = ESC # ''[31mM'' @ ESC # ''[0m''"

definition NO_ADJACENT :: string where
  "NO_ADJACENT = '' ''"

text \<open>
  Decimal rendering of an integer, as JavaScript's string conversion gives it for the
  integers below ten to the power 21 in absolute value; from there on JavaScript prints the
  exponent form. The counts of a board are between 0 and 8.
\<close>

fun decimal :: "nat \<Rightarrow> string" where
  "decimal n = (if n < 10 then [char_of (48 + n)]
                else decimal (n div 10) @ [char_of (48 + n mod 10)])"

declare decimal.simps [simp del]

definition toString :: "int \<Rightarrow> string" where
  "toString i = (if i < 0 then CHR ''-'' # decimal (nat (- i)) else decimal (nat i))"

text \<open>
  \<open>formatAdjacent(CellState.ADJACENT, value)\<close>: the template is
  \<open>ESC[34m{0}ESC[0m\<close>, whose only placeholder \<open>{0}\<close> is replaced by the first argument.
\<close>

definition formatAdjacent :: "int \<Rightarrow> string" where
  "formatAdjacent v = ESC # ''[34m'' @ toString v @ ESC # ''[0m''"

text \<open>The constructor.\<close>

definition newCellState :: CellState where
  "newCellState = \<lparr> isMine = False, isFlagged = False, isOpened = False,
     adjacentMines = 0, currentState = UNOPENED, defaultState = NO_ADJACENT \<rparr>"

text \<open>The four setters, in the order of the source.\<close>

definition set_isMine :: "bool \<Rightarrow> CellState \<Rightarrow> CellState" where
  "set_isMine v s =
     s\<lparr> isMine := v,
        defaultState := (if v then MINE else NO_ADJACENT),
        currentState := UNOPENED,
        adjacentMines := 0,
        isOpened := False,
        isFlagged := False \<rparr>"

definition set_isFlagged :: "bool \<Rightarrow> CellState \<Rightarrow> CellState" where
  "set_isFlagged v s =
     (if isOpened s then s
      else s\<lparr> isFlagged := v, currentState := (if v then FLAGGED else UNOPENED) \<rparr>)"

definition set_isOpened :: "bool \<Rightarrow> CellState \<Rightarrow> CellState" where
  "set_isOpened v s =
     s\<lparr> isOpened := v, currentState := (if v then defaultState s else UNOPENED) \<rparr>"

definition set_adjacentMines :: "int \<Rightarrow> CellState \<Rightarrow> CellState" where
  "set_adjacentMines v s =
     (if isMine s then s
      else if v < 0 then s
      else let d = (if v > 0 then formatAdjacent v else NO_ADJACENT)
           in s\<lparr> adjacentMines := v, defaultState := d,
                 currentState := (if isOpened s then d else currentState s) \<rparr>)"

text \<open>Sequences of setter calls on one cell.\<close>

datatype cellOp = SetMine bool | SetFlagged bool | SetOpened bool | SetAdjacentMines int

fun applyOp :: "cellOp \<Rightarrow> CellState \<Rightarrow> CellState" where
  "applyOp (SetMine v) s = set_isMine v s"
| "applyOp (SetFlagged v) s = set_isFlagged v s"
| "applyOp (SetOpened v) s = set_isOpened v s"
| "applyOp (SetAdjacentMines v) s = set_adjacentMines v s"

fun applyOps :: "cellOp list \<Rightarrow> CellState \<Rightarrow> CellState" where
  "applyOps [] s = s"
| "applyOps (x # xs) s = applyOps xs (applyOp x s)"

text \<open>The tuple of semantic fields the display is supposed to depend on.\<close>

definition tupleOf :: "CellState \<Rightarrow> bool \<times> bool \<times> bool \<times> int" where
  "tupleOf s = (isMine s, isOpened s, isFlagged s, adjacentMines s)"

text \<open>
  A sequence of setter calls never closes a flagged cell: \<open>isOpened = false\<close> is not
  applied while \<open>isFlagged\<close> holds.
\<close>

fun closesNoFlagged :: "cellOp list \<Rightarrow> CellState \<Rightarrow> bool" where
  "closesNoFlagged [] s = True"
| "closesNoFlagged (x # xs) s =
     ((case x of SetOpened v \<Rightarrow> v \<or> \<not> isFlagged s | _ \<Rightarrow> True)
      \<and> closesNoFlagged xs (applyOp x s))"

text \<open>The display token as a function of the four fields.\<close>

definition displayOf :: "bool \<times> bool \<times> bool \<times> int \<Rightarrow> string" where
  "displayOf t = (case t of (m, opn, f, a) \<Rightarrow>
     if opn then (if m then MINE else if a > 0 then formatAdjacent a else NO_ADJACENT)
     else if f then FLAGGED else UNOPENED)"

definition coherent :: "CellState \<Rightarrow> bool" where
  "coherent s \<longleftrightarrow>
     defaultState s = (if isMine s then MINE
                       else if adjacentMines s > 0 then formatAdjacent (adjacentMines s)
                       else NO_ADJACENT)
     \<and> currentState s = displayOf (tupleOf s)"

section \<open>Cell, Difficulty and Board\<close>

record Cell =
  row :: int
  col :: int
  state :: CellState

definition newCell :: "int \<Rightarrow> int \<Rightarrow> Cell" where
  "newCell r c = \<lparr> row = r, col = c, state = newCellState \<rparr>"

record Difficulty =
  name :: string
  rows :: int
  cols :: int
  mines :: int

definition BEGINNER :: Difficulty where
  "BEGINNER = \<lparr> name = ''Beginner'', rows = 8, cols = 8, mines = 10 \<rparr>"

definition INTERMEDIATE :: Difficulty where
  "INTERMEDIATE = \<lparr> name = ''Intermediate'', rows = 16, cols = 16, mines = 40 \<rparr>"

definition EXPERT :: Difficulty where
  "EXPERT = \<lparr> name = ''Expert'', rows = 30, cols = 16, mines = 99 \<rparr>"

text \<open>
  The private fields of \<open>Board\<close>. Times are milliseconds since the epoch; \<open>None\<close> is
  JavaScript's \<open>null\<close>.
\<close>

record Board =
  difficulty :: string
  rows :: int
  cols :: int
  mines :: int
  cells :: "Cell list list"
  minesList :: "(int \<times> int) list"
  flags :: int
  openedCells :: int
  isGameOver :: bool
  isGameWon :: bool
  startTime :: "int option"
  endTime :: "int option"

text \<open>
  What a method call leaves behind: it returns, or it throws and leaves the object in
  the state reached so far.
\<close>

datatype error = RangeError | TypeError

datatype outcome = Returned Board | Threw error Board

fun boardOf :: "outcome \<Rightarrow> Board" where
  "boardOf (Returned b) = b"
| "boardOf (Threw e b) = b"

fun returned :: "outcome \<Rightarrow> bool" where
  "returned (Returned b) = True"
| "returned (Threw e b) = False"

definition directions :: "(int \<times> int) list" where
  "directions = [(-1, -1), (-1, 0), (-1, 1), (0, -1), (0, 1), (1, -1), (1, 0), (1, 1)]"

text \<open>
  \<open>this.#_cells[row][col]\<close>: an index outside an array reads \<open>undefined\<close>, and the
  code then throws a TypeError when it dereferences it; \<open>None\<close> stands for that.
\<close>

definition cellAt :: "Board \<Rightarrow> int \<Rightarrow> int \<Rightarrow> Cell option" where
  "cellAt b r c =
     (if 0 \<le> r \<and> r < int (length (cells b))
      then (if 0 \<le> c \<and> c < int (length (cells b ! nat r))
            then Some (cells b ! nat r ! nat c) else None)
      else None)"

text \<open>A setter call on \<open>this.#_cells[row][col].state\<close>.\<close>

definition updateState :: "Board \<Rightarrow> int \<Rightarrow> int \<Rightarrow> (CellState \<Rightarrow> CellState) \<Rightarrow> Board" where
  "updateState b r c f =
     b\<lparr> cells := (cells b)[nat r := (cells b ! nat r)[nat c :=
          (cells b ! nat r ! nat c)\<lparr> state := f (state (cells b ! nat r ! nat c)) \<rparr>]] \<rparr>"

definition init :: "int \<Rightarrow> int \<Rightarrow> Cell list list" where
  "init nrows ncols = map (\<lambda>r. map (\<lambda>c. newCell r c) [0..ncols - 1]) [0..nrows - 1]"

definition reset :: "Board \<Rightarrow> Board" where
  "reset b =
     b\<lparr> cells := init (rows b) (cols b),
        minesList := [],
        flags := 0,
        openedCells := 0,
        isGameOver := False,
        isGameWon := False,
        startTime := None,
        endTime := None \<rparr>"

text \<open>The constructor.\<close>

definition newBoard :: "Difficulty \<Rightarrow> Board" where
  "newBoard d =
     reset \<lparr> difficulty = name d, rows = Difficulty.rows d, cols = Difficulty.cols d,
             mines = Difficulty.mines d, cells = [], minesList = [], flags = 0,
             openedCells = 0, isGameOver = False, isGameWon = False,
             startTime = None, endTime = None \<rparr>"

definition outOfRange :: "Board \<Rightarrow> int \<Rightarrow> int \<Rightarrow> bool" where
  "outOfRange b r c \<longleftrightarrow> r < 0 \<or> r \<ge> rows b \<or> c < 0 \<or> c \<ge> cols b"

definition getAdjacentCells :: "Board \<Rightarrow> int \<Rightarrow> int \<Rightarrow> (int \<times> int) list" where
  "getAdjacentCells b r c =
     [(r + dr, c + dc). (dr, dc) \<leftarrow> directions,
        \<not> (r + dr < 0 \<or> r + dr \<ge> rows b), \<not> (c + dc < 0 \<or> c + dc \<ge> cols b)]"

text \<open>
  \<open>Math.random()\<close> is an oracle \<open>rnd\<close>: the \<open>k\<close>-th call of a run returns the number
  \<open>rnd k\<close>, and \<open>Math.floor(Math.random() * n)\<close> is \<open>rnd k mod n\<close>, which ranges over
  exactly \<open>0, ..., n - 1\<close> as the oracle varies (and is \<open>0\<close> for \<open>n = 0\<close>). Functions that
  draw take the index of the next call and return the index after their last one.
\<close>

definition randomBelow :: "(nat \<Rightarrow> nat) \<Rightarrow> nat \<Rightarrow> nat \<Rightarrow> nat" where
  "randomBelow rnd k n = (if n = 0 then 0 else rnd k mod n)"

text \<open>The loop of \<open>shuffleArray\<close>, for \<open>i\<close> from its first argument down to 1.\<close>

fun shuffleFrom :: "nat \<Rightarrow> (nat \<Rightarrow> nat) \<Rightarrow> nat \<Rightarrow> 'a list \<Rightarrow> 'a list \<times> nat" where
  "shuffleFrom 0 rnd k xs = (xs, k)"
| "shuffleFrom (Suc i) rnd k xs =
     (let j = randomBelow rnd k (Suc i + 1)
      in shuffleFrom i rnd (k + 1) (xs[Suc i := xs ! j, j := xs ! Suc i]))"

definition shuffleArray :: "(nat \<Rightarrow> nat) \<Rightarrow> nat \<Rightarrow> 'a list \<Rightarrow> 'a list \<times> nat" where
  "shuffleArray rnd k xs = shuffleFrom (length xs - 1) rnd k xs"

text \<open>
  The set of excluded cells holds the strings \<open>row,col\<close>; two coordinates give the same
  string only if they are equal, so the set is modelled as a set of pairs.
\<close>

definition buildCellsListWithoutMines :: "Board \<Rightarrow> (int \<times> int) set \<Rightarrow> (int \<times> int) list" where
  "buildCellsListWithoutMines b excludeCells =
     [(r, c). r \<leftarrow> [0..rows b - 1], c \<leftarrow> [0..cols b - 1], (r, c) \<notin> excludeCells]"

text \<open>
  The loop \<open>for (i = 0; i < mines; i++)\<close> of \<open>placeMines\<close>: the first argument counts the
  iterations left and the second is \<open>cellList\<close> from index \<open>i\<close> on. Destructuring
  \<open>cellList[i]\<close> past the end of the list throws a TypeError.
\<close>

fun placeLoop :: "nat \<Rightarrow> (int \<times> int) list \<Rightarrow> Board \<Rightarrow> outcome" where
  "placeLoop 0 cellList b = Returned b"
| "placeLoop (Suc n) [] b = Threw TypeError b"
| "placeLoop (Suc n) ((r, c) # cellList) b =
     (case cellAt b r c of
        None \<Rightarrow> Threw TypeError b
      | Some cell \<Rightarrow>
          placeLoop n cellList
            ((updateState b r c (set_isMine True))\<lparr> minesList := minesList b @ [(r, c)] \<rparr>))"

text \<open>The inner loop of \<open>calculateAdjacentMines\<close>, over the directions left.\<close>

fun countAround :: "(int \<times> int) list \<Rightarrow> int \<Rightarrow> int \<Rightarrow> Board \<Rightarrow> outcome" where
  "countAround [] r c b = Returned b"
| "countAround ((dirRow, dirCol) # ds) r c b =
     (let newRow = r + dirRow; newCol = c + dirCol
      in if newRow < 0 \<or> newRow \<ge> rows b then countAround ds r c b
         else if newCol < 0 \<or> newCol \<ge> cols b then countAround ds r c b
         else case cellAt b newRow newCol of
                None \<Rightarrow> Threw TypeError b
              | Some cell \<Rightarrow>
                  if isMine (state cell) then countAround ds r c b
                  else countAround ds r c
                         (updateState b newRow newCol
                            (\<lambda>s. set_adjacentMines (adjacentMines s + 1) s)))"

text \<open>The outer loop, over the mines left.\<close>

fun countMinesFrom :: "(int \<times> int) list \<Rightarrow> Board \<Rightarrow> outcome" where
  "countMinesFrom [] b = Returned b"
| "countMinesFrom ((r, c) # ms) b =
     (case countAround directions r c b of
        Threw e b' \<Rightarrow> Threw e b'
      | Returned b' \<Rightarrow> countMinesFrom ms b')"

definition calculateAdjacentMines :: "Board \<Rightarrow> outcome" where
  "calculateAdjacentMines b = countMinesFrom (minesList b) b"

definition placeMines :: "(nat \<Rightarrow> nat) \<Rightarrow> Board \<Rightarrow> int \<Rightarrow> int \<Rightarrow> outcome" where
  "placeMines rnd b initialRow initialCol =
     (let adjacentCells = getAdjacentCells b initialRow initialCol;
          (shuffled, k) = shuffleArray rnd 0 adjacentCells;
          numberOfAdjacentCells = randomBelow rnd k (length shuffled) + 1;
          excludeCells = set ((initialRow, initialCol) # take numberOfAdjacentCells shuffled);
          (cellList, k') = shuffleArray rnd (k + 1) (buildCellsListWithoutMines b excludeCells)
      in case placeLoop (nat (mines b)) cellList b of
           Threw e b' \<Rightarrow> Threw e b'
         | Returned b' \<Rightarrow> calculateAdjacentMines b')"

text \<open>\<open>startGame\<close>; \<open>now\<close> is the value of \<open>new Date()\<close>.\<close>

definition startGame :: "(nat \<Rightarrow> nat) \<Rightarrow> int \<Rightarrow> Board \<Rightarrow> int \<Rightarrow> int \<Rightarrow> outcome" where
  "startGame rnd now b r c =
     (if r < 0 \<or> r \<ge> rows b \<or> c < 0 \<or> c \<ge> cols b then Threw RangeError b
      else case placeMines rnd (reset b) r c of
             Threw e b' \<Rightarrow> Threw e b'
           | Returned b' \<Rightarrow> Returned (b'\<lparr> startTime := Some now \<rparr>))"

text \<open>\<open>openAllMines\<close>: the \<open>forEach\<close> over the list of mines.\<close>

fun openMinesFrom :: "(int \<times> int) list \<Rightarrow> Board \<Rightarrow> outcome" where
  "openMinesFrom [] b = Returned b"
| "openMinesFrom ((r, c) # ms) b =
     (case cellAt b r c of
        None \<Rightarrow> Threw TypeError b
      | Some cell \<Rightarrow> openMinesFrom ms (updateState b r c (set_isOpened True)))"

definition openAllMines :: "Board \<Rightarrow> outcome" where
  "openAllMines b = openMinesFrom (minesList b) b"

definition toggleFlag :: "Board \<Rightarrow> int \<Rightarrow> int \<Rightarrow> outcome" where
  "toggleFlag b r c =
     (if r < 0 \<or> r \<ge> rows b \<or> c < 0 \<or> c \<ge> cols b then Threw RangeError b
      else if isGameOver b \<or> isGameWon b then Returned b
      else case cellAt b r c of
             None \<Rightarrow> Threw TypeError b
           | Some cell \<Rightarrow>
               if isOpened (state cell) then Returned b
               else let b' = updateState b r c (\<lambda>s. set_isFlagged (\<not> isFlagged s) s)
                    in case cellAt b' r c of
                         None \<Rightarrow> Threw TypeError b'
                       | Some cell' \<Rightarrow>
                           Returned (b'\<lparr> flags := flags b'
                              + (if isFlagged (state cell') then 1 else -1) \<rparr>))"

section \<open>Opening cells\<close>

text \<open>The number of cells of the grid whose state satisfies a predicate.\<close>

definition countCells :: "(CellState \<Rightarrow> bool) \<Rightarrow> Board \<Rightarrow> nat" where
  "countCells P b = length (filter (\<lambda>cell. P (state cell)) (concat (cells b)))"

lemma filter_update_count:
  "j < length xs \<Longrightarrow>
   length (filter Q (xs[j := y])) + (if Q (xs ! j) then 1 else 0)
     = length (filter Q xs) + (if Q y then 1 else 0)"
proof (induction xs arbitrary: j)
  case Nil
  then show ?case by simp
next
  case (Cons x xs)
  then show ?case by (cases j) auto
qed

lemma concat_update_count:
  "i < length xss \<Longrightarrow>
   length (filter Q (concat (xss[i := ys]))) + length (filter Q (xss ! i))
     = length (filter Q (concat xss)) + length (filter Q ys)"
proof (induction xss arbitrary: i)
  case Nil
  then show ?case by simp
next
  case (Cons xs xss)
  show ?case
  proof (cases i)
    case 0
    then show ?thesis by simp
  next
    case (Suc k)
    with Cons.prems have "k < length xss" by simp
    from Cons.IH [OF this] Suc show ?thesis by simp
  qed
qed

lemma countCells_updateState:
  assumes "cellAt b r c = Some cell"
  shows "countCells P (updateState b r c f) + (if P (state cell) then 1 else 0)
     = countCells P b + (if P (f (state cell)) then 1 else 0)"
proof -
  from assms have r: "nat r < length (cells b)" and c: "nat c < length (cells b ! nat r)"
    and cell: "cell = cells b ! nat r ! nat c"
    by (auto simp: cellAt_def split: if_splits)
  let ?y = "cell\<lparr> state := f (state cell) \<rparr>"
  have 1: "length (filter (\<lambda>x. P (state x)) ((cells b ! nat r)[nat c := ?y]))
        + (if P (state cell) then 1 else 0)
      = length (filter (\<lambda>x. P (state x)) (cells b ! nat r)) + (if P (f (state cell)) then 1 else 0)"
    using filter_update_count [OF c, of "\<lambda>x. P (state x)" ?y] cell by simp
  have 2: "length (filter (\<lambda>x. P (state x)) (concat ((cells b)[nat r := (cells b ! nat r)[nat c := ?y]])))
        + length (filter (\<lambda>x. P (state x)) (cells b ! nat r))
      = length (filter (\<lambda>x. P (state x)) (concat (cells b)))
        + length (filter (\<lambda>x. P (state x)) ((cells b ! nat r)[nat c := ?y]))"
    by (rule concat_update_count [OF r])
  from 1 2 show ?thesis
    by (simp add: countCells_def updateState_def cell)
qed

text \<open>The number of cells of the grid that are not opened: it bounds the flood fill.\<close>

definition unopened :: "Board \<Rightarrow> nat" where
  "unopened b = length (filter (\<lambda>cell. \<not> isOpened (state cell)) (concat (cells b)))"

lemma unopened_countCells: "unopened b = countCells (\<lambda>s. \<not> isOpened s) b"
  by (simp add: unopened_def countCells_def)

lemma unopened_open:
  assumes "cellAt b r c = Some cell"
  shows "unopened (updateState b r c (set_isOpened True)) \<le> unopened b"
    and "\<not> isOpened (state cell) \<Longrightarrow> unopened (updateState b r c (set_isOpened True)) < unopened b"
  using countCells_updateState [OF assms, of "\<lambda>s. \<not> isOpened s" "set_isOpened True"]
  by (auto simp: unopened_countCells set_isOpened_def split: if_splits)

lemma unopened_openMinesFrom: "unopened (boardOf (openMinesFrom ms b)) \<le> unopened b"
proof (induction ms arbitrary: b)
  case Nil
  then show ?case by simp
next
  case (Cons m ms)
  obtain r c where m: "m = (r, c)" by (cases m)
  show ?case
  proof (cases "cellAt b r c")
    case None
    with m show ?thesis by simp
  next
    case (Some cell)
    have "unopened (boardOf (openMinesFrom ms (updateState b r c (set_isOpened True))))
        \<le> unopened (updateState b r c (set_isOpened True))"
      by (rule Cons.IH)
    also have "\<dots> \<le> unopened b" by (rule unopened_open(1) [OF Some])
    finally show ?thesis using m Some by simp
  qed
qed

text \<open>
  \<open>openCell\<close> and \<open>openAdjacentCells\<close> call each other; \<open>openAround\<close> is the
  \<open>for\<close> loop of \<open>openAdjacentCells\<close> over the directions left. The body of the loop
  is the inner expression: a \<open>continue\<close> ends it with the board unchanged, and an
  exception of the nested \<open>openCell\<close> ends the loop. \<open>now\<close> is the value of
  \<open>new Date()\<close>.
\<close>

function openCell :: "int \<Rightarrow> Board \<Rightarrow> int \<Rightarrow> int \<Rightarrow> outcome"
  and openAdjacentCells :: "int \<Rightarrow> Board \<Rightarrow> int \<Rightarrow> int \<Rightarrow> outcome"
  and openAround :: "(int \<times> int) list \<Rightarrow> int \<Rightarrow> Board \<Rightarrow> int \<Rightarrow> int \<Rightarrow> outcome"
where
  "openCell now b r c =
     (if isGameOver b \<or> isGameWon b then Returned b
      else if r < 0 \<or> r \<ge> rows b \<or> c < 0 \<or> c \<ge> cols b then Threw RangeError b
      else case cellAt b r c of
             None \<Rightarrow> Threw TypeError b
           | Some cell \<Rightarrow>
               if isOpened (state cell) then Returned b
               else if isMine (state cell)
               then openAllMines (b\<lparr> isGameOver := True, endTime := Some now \<rparr>)
               else let b1 = (updateState b r c (set_isOpened True))
                               \<lparr> openedCells := openedCells b + 1 \<rparr>
                    in (case (if adjacentMines (set_isOpened True (state cell)) = 0
                              then openAdjacentCells now b1 r c else Returned b1) of
                          Threw e b2 \<Rightarrow> Threw e b2
                        | Returned b2 \<Rightarrow>
                            if openedCells b2 = rows b2 * cols b2 - mines b2
                            then Returned (b2\<lparr> isGameWon := True \<rparr>)
                            else Returned b2))"
| "openAdjacentCells now b r c =
     (if r < 0 \<or> r \<ge> rows b then Returned b
      else if c < 0 \<or> c \<ge> cols b then Returned b
      else openAround directions now b r c)"
| "openAround [] now b r c = Returned b"
| "openAround ((dirRow, dirCol) # ds) now b r c =
     (case (let newRow = r + dirRow; newCol = c + dirCol
            in if newRow < 0 \<or> newRow \<ge> rows b then Returned b
               else if newCol < 0 \<or> newCol \<ge> cols b then Returned b
               else (case cellAt b newRow newCol of
                       None \<Rightarrow> Threw TypeError b
                     | Some cell \<Rightarrow>
                         if isOpened (state cell) \<or> isFlagged (state cell) then Returned b
                         else if isMine (state cell) then Returned b
                         else openCell now b newRow newCol)) of
        Threw e b' \<Rightarrow> Threw e b'
      | Returned b' \<Rightarrow> openAround ds now b' r c)"
  by pat_completeness auto

lemma open_le_partial:
  "openCell_openAdjacentCells_openAround_dom (Inl (now, b, r, c))
     \<Longrightarrow> unopened (boardOf (openCell now b r c)) \<le> unopened b"
  "openCell_openAdjacentCells_openAround_dom (Inr (Inl (now, b, r, c)))
     \<Longrightarrow> unopened (boardOf (openAdjacentCells now b r c)) \<le> unopened b"
  "openCell_openAdjacentCells_openAround_dom (Inr (Inr (ds, now, b, r, c)))
     \<Longrightarrow> unopened (boardOf (openAround ds now b r c)) \<le> unopened b"
proof (induction now b r c and now b r c and ds now b r c
    rule: openCell_openAdjacentCells_openAround.pinduct)
  case (1 now b r c)
  show ?case
  proof (cases "cellAt b r c")
    case None
    with 1(1) show ?thesis by (simp add: openCell.psimps)
  next
    case (Some cell)
    let ?b1 = "(updateState b r c (set_isOpened True))\<lparr> openedCells := openedCells b + 1 \<rparr>"
    have le1: "unopened ?b1 \<le> unopened b"
      using unopened_open(1) [OF Some] by (simp add: unopened_def)
    have mine: "unopened (boardOf (openAllMines (b\<lparr> isGameOver := True, endTime := Some now \<rparr>)))
        \<le> unopened b"
      using unopened_openMinesFrom [of "minesList b" "b\<lparr> isGameOver := True, endTime := Some now \<rparr>"]
      by (simp add: openAllMines_def unopened_def)
    show ?thesis
    proof (cases "\<not> (isGameOver b \<or> isGameWon b)
        \<and> \<not> (r < 0 \<or> rows b \<le> r \<or> c < 0 \<or> cols b \<le> c)
        \<and> \<not> isOpened (state cell) \<and> \<not> isMine (state cell)
        \<and> adjacentMines (set_isOpened True (state cell)) = 0")
      case True
      with 1(2) [OF _ _ Some, of ?b1] have "unopened (boardOf (openAdjacentCells now ?b1 r c)) \<le> unopened ?b1"
        by simp
      with le1 have "unopened (boardOf (openAdjacentCells now ?b1 r c)) \<le> unopened b" by simp
      with True Some 1(1) show ?thesis
        by (auto simp: openCell.psimps Let_def unopened_def split: outcome.splits)
    next
      case False
      with Some 1(1) le1 mine show ?thesis
        by (auto simp: openCell.psimps Let_def unopened_def split: outcome.splits)
    qed
  qed
next
  case (2 now b r c)
  then show ?case by (simp add: openAdjacentCells.psimps)
next
  case (3 now b r c)
  then show ?case by (simp add: openAround.psimps)
next
  case (4 dirRow dirCol ds now b r c)
  let ?body = "(let newRow = r + dirRow; newCol = c + dirCol
            in if newRow < 0 \<or> newRow \<ge> rows b then Returned b
               else if newCol < 0 \<or> newCol \<ge> cols b then Returned b
               else (case cellAt b newRow newCol of
                       None \<Rightarrow> Threw TypeError b
                     | Some cell \<Rightarrow>
                         if isOpened (state cell) \<or> isFlagged (state cell) then Returned b
                         else if isMine (state cell) then Returned b
                         else openCell now b newRow newCol))"
  have body: "unopened (boardOf ?body) \<le> unopened b"
    using 4(2) by (auto simp: Let_def split: option.splits)
  show ?case
  proof (cases ?body)
    case (Returned b')
    from 4(3) [OF this] body Returned have "unopened (boardOf (openAround ds now b' r c)) \<le> unopened b"
      by simp
    with Returned 4(1) show ?thesis by (simp add: openAround.psimps)
  next
    case (Threw e b')
    with body 4(1) show ?thesis by (simp add: openAround.psimps)
  qed
qed

termination openCell
proof (relation "measures [
    case_sum (\<lambda>(now, b, r, c). unopened b)
      (case_sum (\<lambda>(now, b, r, c). unopened b) (\<lambda>(ds, now, b, r, c). unopened b)),
    case_sum (\<lambda>_. 0) (case_sum (\<lambda>_. 2) (\<lambda>_. 1)),
    case_sum (\<lambda>_. 0) (case_sum (\<lambda>_. 0) (\<lambda>(ds, now, b, r, c). length ds))]", goal_cases)
  case 1
  then show ?case by simp
next
  case (2 now b r c cell b1)
  then show ?case using unopened_open(2) [of b r c cell] by (simp add: unopened_def)
next
  case (3 now b r c)
  then show ?case by simp
next
  case (4 dirRow dirCol ds now b r c)
  then show ?case by simp
next
  case (5 dirRow dirCol ds now b r c b')
  then show ?case
    using open_le_partial(1) [of now b "r + dirRow" "c + dirCol"]
    by (auto simp: Let_def split: if_splits option.splits)
qed

declare openCell.simps [simp del] openAdjacentCells.simps [simp del] openAround.simps [simp del]

section \<open>Sequences of calls\<close>

text \<open>
  A driver calls the public methods in any order; the board after a call is the state
  the call leaves, whether it returned or threw.
\<close>

datatype op = Reset | StartGame "nat \<Rightarrow> nat" int int int | OpenCell int int int | ToggleFlag int int

fun exec :: "op \<Rightarrow> Board \<Rightarrow> Board" where
  "exec Reset b = reset b"
| "exec (StartGame rnd now r c) b = boardOf (startGame rnd now b r c)"
| "exec (OpenCell now r c) b = boardOf (openCell now b r c)"
| "exec (ToggleFlag r c) b = boardOf (toggleFlag b r c)"

fun run :: "op list \<Rightarrow> Board \<Rightarrow> Board" where
  "run [] b = b"
| "run (x # xs) b = run xs (exec x b)"

section \<open>Auxiliary notions\<close>

text \<open>The grid has \<open>rows\<close> rows of \<open>cols\<close> cells each, as \<open>init\<close> builds it.\<close>

definition gridOK :: "Board \<Rightarrow> bool" where
  "gridOK b \<longleftrightarrow> map length (cells b) = replicate (nat (rows b)) (nat (cols b))"

text \<open>The two assignments of \<open>openCell\<close> that open a cell that is not a mine.\<close>

definition openStep :: "Board \<Rightarrow> int \<Rightarrow> int \<Rightarrow> Board" where
  "openStep b r c = (updateState b r c (set_isOpened True))\<lparr> openedCells := openedCells b + 1 \<rparr>"

text \<open>The body of the loop of \<open>openAdjacentCells\<close> for one direction.\<close>

definition visit :: "int \<Rightarrow> Board \<Rightarrow> int \<Rightarrow> int \<Rightarrow> int \<times> int \<Rightarrow> outcome" where
  "visit now b r c d =
     (if outOfRange b (r + fst d) (c + snd d) then Returned b
      else case cellAt b (r + fst d) (c + snd d) of
             None \<Rightarrow> Threw TypeError b
           | Some cell \<Rightarrow>
               if isOpened (state cell) \<or> isFlagged (state cell) \<or> isMine (state cell)
               then Returned b
               else openCell now b (r + fst d) (c + snd d))"

text \<open>
  A cell at a later moment of the same game: the mine, the flag and the count are the
  same, and a cell that was opened still is.
\<close>

definition sameCell :: "Cell \<Rightarrow> Cell \<Rightarrow> bool" where
  "sameCell x y \<longleftrightarrow> isMine (state y) = isMine (state x) \<and> isFlagged (state y) = isFlagged (state x)
     \<and> adjacentMines (state y) = adjacentMines (state x)
     \<and> (isOpened (state x) \<longrightarrow> isOpened (state y))"

text \<open>
  A later board of the same game: the configuration, the list of mines, the flag
  counter, the start time and the shape of the grid are the same, and every cell is
  the same cell, possibly opened since.
\<close>

definition grows :: "Board \<Rightarrow> Board \<Rightarrow> bool" where
  "grows b b' \<longleftrightarrow> rows b' = rows b \<and> cols b' = cols b \<and> mines b' = mines b
     \<and> minesList b' = minesList b \<and> flags b' = flags b \<and> startTime b' = startTime b
     \<and> difficulty b' = difficulty b
     \<and> map length (cells b') = map length (cells b)
     \<and> (\<forall>r c x. cellAt b r c = Some x \<longrightarrow> (\<exists>y. cellAt b' r c = Some y \<and> sameCell x y))"

text \<open>
  The number of opened cells that are not mines.
\<close>

definition safeOpened :: "Board \<Rightarrow> nat" where
  "safeOpened b = countCells (\<lambda>s. isOpened s \<and> \<not> isMine s) b"

text \<open>
  Every coordinate of \<open>minesList\<close> is a mined cell of the grid.
\<close>

definition minesListed :: "Board \<Rightarrow> bool" where
  "minesListed b \<longleftrightarrow>
     (\<forall>(r, c) \<in> set (minesList b). case cellAt b r c of None \<Rightarrow> False | Some cell \<Rightarrow> isMine (state cell))"

text \<open>
  The coordinates of the board, row by row.
\<close>

definition coords :: "Board \<Rightarrow> (int \<times> int) list" where
  "coords b = [(r, c). r \<leftarrow> [0..rows b - 1], c \<leftarrow> [0..cols b - 1]]"

text \<open>
  A cell as a new game shows it: closed, unflagged, displayed as unopened.
\<close>

definition pristine :: "CellState \<Rightarrow> bool" where
  "pristine s \<longleftrightarrow> \<not> isOpened s \<and> \<not> isFlagged s \<and> currentState s = UNOPENED"

text \<open>
  What \<open>placeMines\<close> and \<open>calculateAdjacentMines\<close> keep: the counters, the end of
  game flags, the times and the shape of the grid, the cells that are pristine and the
  cells that are mines.
\<close>

definition setupRel :: "Board \<Rightarrow> Board \<Rightarrow> bool" where
  "setupRel b b' \<longleftrightarrow> rows b' = rows b \<and> cols b' = cols b \<and> mines b' = mines b
     \<and> flags b' = flags b \<and> openedCells b' = openedCells b \<and> isGameOver b' = isGameOver b
     \<and> isGameWon b' = isGameWon b \<and> startTime b' = startTime b \<and> endTime b' = endTime b
     \<and> difficulty b' = difficulty b
     \<and> map length (cells b') = map length (cells b)
     \<and> (\<forall>r c x. cellAt b r c = Some x \<longrightarrow>
           (\<exists>y. cellAt b' r c = Some y \<and> (pristine (state x) \<longrightarrow> pristine (state y))
              \<and> (isMine (state x) \<longrightarrow> isMine (state y))))"

text \<open>
  What \<open>calculateAdjacentMines\<close> keeps beyond that: the list of mines and which cells
  are mines.
\<close>

definition calcRel :: "Board \<Rightarrow> Board \<Rightarrow> bool" where
  "calcRel b b' \<longleftrightarrow> setupRel b b' \<and> minesList b' = minesList b
     \<and> countCells isMine b' = countCells isMine b
     \<and> (\<forall>r c x y. cellAt b r c = Some x \<longrightarrow> cellAt b' r c = Some y \<longrightarrow>
           isMine (state y) = isMine (state x))"

text \<open>
  The shuffled list of cells that \<open>placeMines\<close> takes its mines from, as it computes
  it before its loop.
\<close>

definition cellListOf :: "(nat \<Rightarrow> nat) \<Rightarrow> Board \<Rightarrow> int \<Rightarrow> int \<Rightarrow> (int \<times> int) list" where
  "cellListOf rnd b initialRow initialCol =
     (let adjacentCells = getAdjacentCells b initialRow initialCol;
          (shuffled, k) = shuffleArray rnd 0 adjacentCells;
          numberOfAdjacentCells = randomBelow rnd k (length shuffled) + 1;
          excludeCells = set ((initialRow, initialCol) # take numberOfAdjacentCells shuffled)
      in fst (shuffleArray rnd (k + 1) (buildCellsListWithoutMines b excludeCells)))"

text \<open>
  Every mined cell of the grid is in \<open>minesList\<close>.
\<close>

definition allMinesListed :: "Board \<Rightarrow> bool" where
  "allMinesListed b \<longleftrightarrow>
     (\<forall>(r, c) \<in> set (coords b). case cellAt b r c of None \<Rightarrow> True
        | Some cell \<Rightarrow> isMine (state cell) \<longrightarrow> (r, c) \<in> set (minesList b))"

text \<open>
  The invariant of a board in use: the grid has its shape, \<open>minesList\<close> holds exactly
  the mined cells, and \<open>openedCells\<close> is the number of opened cells that are not mines.
\<close>

definition sound :: "Board \<Rightarrow> bool" where
  "sound b \<longleftrightarrow> gridOK b \<and> minesListed b \<and> allMinesListed b \<and> openedCells b = int (safeOpened b)"

text \<open>
  Until the game is over, no mine is opened.
\<close>

definition minesClosed :: "Board \<Rightarrow> bool" where
  "minesClosed b \<longleftrightarrow> isGameOver b \<or> countCells (\<lambda>s. isOpened s \<and> isMine s) b = 0"

text \<open>
  The cell at a coordinate is a mine.
\<close>

definition mineAt :: "Board \<Rightarrow> int \<Rightarrow> int \<Rightarrow> bool" where
  "mineAt b r c \<longleftrightarrow> (\<exists>cell. cellAt b r c = Some cell \<and> isMine (state cell))"

text \<open>
  The number of opened cells that \<open>openCell\<close> compares \<open>openedCells\<close> with to declare the
  game won.
\<close>

definition target :: "Board \<Rightarrow> int" where
  "target b = rows b * cols b - mines b"

text \<open>
  The game is won exactly when \<open>openedCells\<close> is at that number, and a game is never
  both won and over.
\<close>

definition winInv :: "Board \<Rightarrow> bool" where
  "winInv b \<longleftrightarrow> (isGameWon b \<longleftrightarrow> openedCells b = target b) \<and> \<not> (isGameWon b \<and> isGameOver b)"

text \<open>
  What opening a cell that is not a mine, and the flood fill from it, keep and set.
\<close>

definition floodRel :: "Board \<Rightarrow> Board \<Rightarrow> bool" where
  "floodRel b b' \<longleftrightarrow> isGameOver b' = isGameOver b \<and> endTime b' = endTime b
     \<and> (isGameWon b \<longrightarrow> b' = b)
     \<and> (isGameWon b' \<longrightarrow> isGameWon b \<or> openedCells b' = target b')
     \<and> countCells (\<lambda>s. isOpened s \<and> isMine s) b' = countCells (\<lambda>s. isOpened s \<and> isMine s) b"

text \<open>
  Two sources of random draws, and the boards used as examples: custom configurations
  of 1 by 1 without a mine, 1 by 3 with 1 mine, 2 by 2 with 3 mines and 3 by 3 with 1
  mine, and games played on them.
\<close>

definition zeroOracle :: "nat \<Rightarrow> nat" where
  "zeroOracle k = 0"

definition oneOracle :: "nat \<Rightarrow> nat" where
  "oneOracle k = 1"

definition single :: Difficulty where
  "single = \<lparr> name = ''Custom'', rows = 1, cols = 1, mines = 0 \<rparr>"

definition strip :: Difficulty where
  "strip = \<lparr> name = ''Custom'', rows = 1, cols = 3, mines = 1 \<rparr>"

definition crowded :: Difficulty where
  "crowded = \<lparr> name = ''Custom'', rows = 2, cols = 2, mines = 3 \<rparr>"

definition small :: Difficulty where
  "small = \<lparr> name = ''Custom'', rows = 3, cols = 3, mines = 1 \<rparr>"

definition wonSingle :: Board where
  "wonSingle = run [StartGame zeroOracle 0 0 0, OpenCell 1 0 0] (newBoard single)"

definition wonStrip :: Board where
  "wonStrip = run [StartGame zeroOracle 0 0 0, OpenCell 1 0 0] (newBoard strip)"

definition lostSmall :: Board where
  "lostSmall = run [StartGame zeroOracle 0 0 0, OpenCell 1 0 2] (newBoard small)"

definition flaggedSmall :: Board where
  "flaggedSmall = run [StartGame zeroOracle 0 0 0, ToggleFlag 2 2] (newBoard small)"

text \<open>
  A cell that the flood fill would open: on the board, closed, unflagged and not a mine.
\<close>

definition fresh :: "Board \<Rightarrow> int \<Rightarrow> int \<Rightarrow> bool" where
  "fresh b r c \<longleftrightarrow> \<not> outOfRange b r c
     \<and> (case cellAt b r c of None \<Rightarrow> False
         | Some cell \<Rightarrow> \<not> isOpened (state cell) \<and> \<not> isFlagged (state cell) \<and> \<not> isMine (state cell))"

text \<open>
  The cell at a coordinate has no mine around it.
\<close>

definition zeroAt :: "Board \<Rightarrow> int \<Rightarrow> int \<Rightarrow> bool" where
  "zeroAt b r c \<longleftrightarrow> (case cellAt b r c of None \<Rightarrow> False | Some cell \<Rightarrow> adjacentMines (state cell) = 0)"

text \<open>
  The cell at a coordinate is opened.
\<close>

definition openedAt :: "Board \<Rightarrow> int \<Rightarrow> int \<Rightarrow> bool" where
  "openedAt b r c \<longleftrightarrow> (case cellAt b r c of None \<Rightarrow> False | Some cell \<Rightarrow> isOpened (state cell))"

text \<open>
  The region of a cell: the cell itself, and every closed, unflagged cell without a
  mine next to a cell of the region that has no mine around it.
\<close>

inductive_set reach :: "Board \<Rightarrow> int \<Rightarrow> int \<Rightarrow> (int \<times> int) set" for b :: Board and r0 c0 :: int where
  start: "(r0, c0) \<in> reach b r0 c0"
| step: "(r, c) \<in> reach b r0 c0 \<Longrightarrow> zeroAt b r c \<Longrightarrow> d \<in> set directions
    \<Longrightarrow> fresh b (r + fst d) (c + snd d) \<Longrightarrow> (r + fst d, c + snd d) \<in> reach b r0 c0"

text \<open>
  A cell without a mine around it has no neighbour left that the flood fill would open.
\<close>

definition processed :: "Board \<Rightarrow> int \<Rightarrow> int \<Rightarrow> bool" where
  "processed b r c \<longleftrightarrow> (zeroAt b r c \<longrightarrow> (\<forall>d \<in> set directions. \<not> fresh b (r + fst d) (c + snd d)))"

text \<open>
  Every cell opened between two boards has been processed on the later one.
\<close>

definition settled :: "Board \<Rightarrow> Board \<Rightarrow> bool" where
  "settled b b' \<longleftrightarrow> (\<forall>r c. openedAt b' r c \<longrightarrow> \<not> openedAt b r c \<longrightarrow> processed b' r c)"

section \<open>Properties of CellState\<close>

lemma coherent_new: "coherent newCellState"
  by (simp add: coherent_def newCellState_def displayOf_def tupleOf_def)

lemma coherent_set_isMine: "coherent (set_isMine v s)"
  by (simp add: coherent_def set_isMine_def displayOf_def tupleOf_def)

lemma coherent_set_isFlagged: "coherent s \<Longrightarrow> coherent (set_isFlagged v s)"
  by (simp add: coherent_def set_isFlagged_def displayOf_def tupleOf_def)

lemma coherent_set_isOpened:
  "coherent s \<Longrightarrow> v \<or> \<not> isFlagged s \<Longrightarrow> coherent (set_isOpened v s)"
  by (auto simp: coherent_def set_isOpened_def displayOf_def tupleOf_def)

lemma coherent_set_adjacentMines: "coherent s \<Longrightarrow> coherent (set_adjacentMines v s)"
  by (auto simp: coherent_def set_adjacentMines_def displayOf_def tupleOf_def Let_def)

lemma coherent_applyOps:
  "coherent s \<Longrightarrow> closesNoFlagged xs s \<Longrightarrow> coherent (applyOps xs s)"
proof (induction xs arbitrary: s)
  case Nil
  then show ?case by simp
next
  case (Cons x xs)
  have "coherent (applyOp x s)"
  proof (cases x)
    case (SetOpened v)
    with Cons.prems show ?thesis by (simp add: coherent_set_isOpened)
  qed (use Cons.prems in \<open>simp_all add: coherent_set_isMine coherent_set_isFlagged
        coherent_set_adjacentMines\<close>)
  with Cons show ?case by simp
qed

text \<open>
  C7, as stated: after any two sequences of setter calls on fresh cells, equal field
  tuples give equal display tokens. It fails: \<open>isFlagged = true\<close> shows the flag
  marker, and \<open>isFlagged = true; isOpened = false\<close> leaves the same four fields but
  shows the unopened marker.
\<close>

theorem C7_display_not_pure_counterexample:
  "tupleOf (applyOps [SetFlagged True] newCellState)
     = tupleOf (applyOps [SetFlagged True, SetOpened False] newCellState)
   \<and> currentState (applyOps [SetFlagged True] newCellState)
     \<noteq> currentState (applyOps [SetFlagged True, SetOpened False] newCellState)"
  by (simp add: tupleOf_def newCellState_def set_isFlagged_def set_isOpened_def
      FLAGGED_def UNOPENED_def)

text \<open>
  C7, amended: for sequences of setter calls that never set \<open>isOpened = false\<close> on a
  flagged cell, the display token is a function of (isMine, isOpened, isFlagged,
  adjacentMines): two cells that end with equal tuples show the same token.
\<close>

theorem C7_display_pure:
  assumes "closesNoFlagged xs newCellState" and "closesNoFlagged ys newCellState"
    and "tupleOf (applyOps xs newCellState) = tupleOf (applyOps ys newCellState)"
  shows "currentState (applyOps xs newCellState) = currentState (applyOps ys newCellState)"
proof -
  have "coherent (applyOps xs newCellState)" and "coherent (applyOps ys newCellState)"
    using assms(1,2) by (simp_all add: coherent_applyOps coherent_new)
  then show ?thesis using assms(3) by (simp add: coherent_def)
qed

theorem C7_display_pure_witness:
  "closesNoFlagged [SetAdjacentMines 2, SetFlagged True, SetOpened True] newCellState
   \<and> closesNoFlagged [SetOpened True, SetFlagged True, SetAdjacentMines 1, SetAdjacentMines 2,
        SetOpened False, SetFlagged True, SetOpened True] newCellState
   \<and> currentState (applyOps [SetAdjacentMines 2, SetFlagged True, SetOpened True] newCellState)
     = currentState (applyOps [SetOpened True, SetFlagged True, SetAdjacentMines 1,
         SetAdjacentMines 2, SetOpened False, SetFlagged True, SetOpened True] newCellState)"
proof -
  have a: "closesNoFlagged [SetAdjacentMines 2, SetFlagged True, SetOpened True] newCellState"
    by (simp add: newCellState_def set_adjacentMines_def set_isFlagged_def Let_def)
  have b: "closesNoFlagged [SetOpened True, SetFlagged True, SetAdjacentMines 1,
        SetAdjacentMines 2, SetOpened False, SetFlagged True, SetOpened True] newCellState"
    by (simp add: newCellState_def set_adjacentMines_def set_isFlagged_def set_isOpened_def
        Let_def)
  have c: "tupleOf (applyOps [SetAdjacentMines 2, SetFlagged True, SetOpened True] newCellState)
     = tupleOf (applyOps [SetOpened True, SetFlagged True, SetAdjacentMines 1,
         SetAdjacentMines 2, SetOpened False, SetFlagged True, SetOpened True] newCellState)"
    by (simp add: tupleOf_def newCellState_def set_adjacentMines_def set_isFlagged_def
        set_isOpened_def Let_def)
  show ?thesis using a b C7_display_pure [OF a b c] by simp
qed

section \<open>The grid\<close>

lemma gridOK_D:
  assumes "gridOK b"
  shows "length (cells b) = nat (rows b)"
    and "i < length (cells b) \<Longrightarrow> length (cells b ! i) = nat (cols b)"
proof -
  from assms have eq: "map length (cells b) = replicate (nat (rows b)) (nat (cols b))"
    by (simp add: gridOK_def)
  from arg_cong [OF eq, of length] show len: "length (cells b) = nat (rows b)" by simp
  assume "i < length (cells b)"
  with len have "map length (cells b) ! i = length (cells b ! i)"
    and "replicate (nat (rows b)) (nat (cols b)) ! i = nat (cols b)" by simp_all
  with eq show "length (cells b ! i) = nat (cols b)" by simp
qed

lemma cellAt_fields [simp]:
  "cellAt (b\<lparr> openedCells := n \<rparr>) = cellAt b"
  "cellAt (b\<lparr> isGameWon := w \<rparr>) = cellAt b"
  "cellAt (b\<lparr> isGameOver := g \<rparr>) = cellAt b"
  "cellAt (b\<lparr> endTime := t \<rparr>) = cellAt b"
  "cellAt (b\<lparr> startTime := t \<rparr>) = cellAt b"
  "cellAt (b\<lparr> minesList := ms \<rparr>) = cellAt b"
  "cellAt (b\<lparr> flags := n \<rparr>) = cellAt b"
  by (simp_all add: cellAt_def fun_eq_iff)

lemma countCells_fields [simp]:
  "countCells P (b\<lparr> openedCells := n \<rparr>) = countCells P b"
  "countCells P (b\<lparr> isGameWon := w \<rparr>) = countCells P b"
  "countCells P (b\<lparr> isGameOver := g \<rparr>) = countCells P b"
  "countCells P (b\<lparr> endTime := t \<rparr>) = countCells P b"
  "countCells P (b\<lparr> startTime := t \<rparr>) = countCells P b"
  "countCells P (b\<lparr> minesList := ms \<rparr>) = countCells P b"
  "countCells P (b\<lparr> flags := n \<rparr>) = countCells P b"
  by (simp_all add: countCells_def)

lemma gridOK_fields [simp]:
  "gridOK (b\<lparr> openedCells := n \<rparr>) = gridOK b"
  "gridOK (b\<lparr> isGameWon := w \<rparr>) = gridOK b"
  "gridOK (b\<lparr> isGameOver := g \<rparr>) = gridOK b"
  "gridOK (b\<lparr> endTime := t \<rparr>) = gridOK b"
  "gridOK (b\<lparr> startTime := t \<rparr>) = gridOK b"
  "gridOK (b\<lparr> minesList := ms \<rparr>) = gridOK b"
  "gridOK (b\<lparr> flags := n \<rparr>) = gridOK b"
  by (simp_all add: gridOK_def)

lemma outOfRange_fields [simp]:
  "outOfRange (b\<lparr> openedCells := n \<rparr>) = outOfRange b"
  "outOfRange (b\<lparr> isGameWon := w \<rparr>) = outOfRange b"
  "outOfRange (b\<lparr> isGameOver := g \<rparr>) = outOfRange b"
  "outOfRange (b\<lparr> endTime := t \<rparr>) = outOfRange b"
  "outOfRange (b\<lparr> startTime := t \<rparr>) = outOfRange b"
  "outOfRange (b\<lparr> minesList := ms \<rparr>) = outOfRange b"
  "outOfRange (b\<lparr> flags := n \<rparr>) = outOfRange b"
  "outOfRange (b\<lparr> cells := cs \<rparr>) = outOfRange b"
  by (simp_all add: outOfRange_def fun_eq_iff)

lemma updateState_fields [simp]:
  "rows (updateState b r c f) = rows b"
  "cols (updateState b r c f) = cols b"
  "mines (updateState b r c f) = mines b"
  "minesList (updateState b r c f) = minesList b"
  "flags (updateState b r c f) = flags b"
  "openedCells (updateState b r c f) = openedCells b"
  "isGameOver (updateState b r c f) = isGameOver b"
  "isGameWon (updateState b r c f) = isGameWon b"
  "startTime (updateState b r c f) = startTime b"
  "endTime (updateState b r c f) = endTime b"
  "difficulty (updateState b r c f) = difficulty b"
  "outOfRange (updateState b r c f) = outOfRange b"
  by (simp_all add: updateState_def outOfRange_def fun_eq_iff)

lemma cellAt_SomeD:
  assumes "cellAt b r c = Some cell"
  shows "0 \<le> r" "nat r < length (cells b)" "0 \<le> c" "nat c < length (cells b ! nat r)"
    "cell = cells b ! nat r ! nat c"
  using assms by (auto simp: cellAt_def split: if_splits)

lemma cellAt_updateState:
  assumes "cellAt b r c = Some cell"
  shows "cellAt (updateState b r c f) r' c'
    = (if r' = r \<and> c' = c then Some (cell\<lparr> state := f (state cell) \<rparr>) else cellAt b r' c')"
proof -
  note d = cellAt_SomeD [OF assms]
  have ri: "r < int (length (cells b))" and ci: "c < int (length (cells b ! nat r))"
    using d by linarith+
  show ?thesis
  proof (cases "r' = r")
    case True
    show ?thesis
    proof (cases "c' = c")
      case True
      with \<open>r' = r\<close> d ri ci show ?thesis by (simp add: cellAt_def updateState_def)
    next
      case False
      then have "0 \<le> c' \<Longrightarrow> nat c' \<noteq> nat c" using d(3) by simp
      with \<open>r' = r\<close> False d show ?thesis by (auto simp: cellAt_def updateState_def)
    qed
  next
    case False
    then have "0 \<le> r' \<Longrightarrow> nat r' \<noteq> nat r" using d(1) by simp
    with False d show ?thesis by (auto simp: cellAt_def updateState_def)
  qed
qed

lemma gridOK_updateState [simp]: "gridOK (updateState b r c f) = gridOK b"
proof -
  have "map length ((cells b)[nat r := (cells b ! nat r)[nat c := x]]) = map length (cells b)" for x
  proof (cases "nat r < length (cells b)")
    case True
    then show ?thesis by (simp add: map_update list_update_same_conv)
  next
    case False
    then show ?thesis by (simp add: list_update_beyond)
  qed
  then show ?thesis by (simp add: gridOK_def updateState_def)
qed

lemma gridOK_cellAt: "gridOK b \<Longrightarrow> \<not> outOfRange b r c \<Longrightarrow> \<exists>cell. cellAt b r c = Some cell"
  using gridOK_D(1) [of b] gridOK_D(2) [of b "nat r"] by (auto simp: outOfRange_def cellAt_def)

lemma cellAt_inside: "gridOK b \<Longrightarrow> cellAt b r c = Some cell \<Longrightarrow> \<not> outOfRange b r c"
  using gridOK_D(1) [of b] gridOK_D(2) [of b "nat r"]
  by (auto simp: outOfRange_def cellAt_def split: if_splits)

lemma cellAt_init:
  "cellAt (b\<lparr> cells := init n m \<rparr>) r c
     = (if 0 \<le> r \<and> r < n \<and> 0 \<le> c \<and> c < m then Some (newCell r c) else None)"
  by (auto simp: cellAt_def init_def split: if_splits)

lemma gridOK_reset [simp]: "gridOK (reset b)"
  by (simp add: gridOK_def reset_def init_def comp_def map_replicate_const)

lemma countCells_init:
  "countCells P (b\<lparr> cells := init n m \<rparr>) = (if P newCellState then nat n * nat m else 0)"
proof -
  have row: "(\<lambda>cell. P (state cell)) \<circ> newCell r = (\<lambda>_. P newCellState)" for r
    by (simp add: fun_eq_iff newCell_def)
  have "length (filter (\<lambda>cell. P (state cell)) (concat (map (\<lambda>r. map (newCell r) [0..m - 1]) rs)))
      = (if P newCellState then length rs * nat m else 0)" for rs
    by (induction rs) (auto simp: row)
  then show ?thesis by (simp add: countCells_def init_def)
qed

section \<open>The flood fill, step by step\<close>

lemma openCell_unfold:
  "openCell now b r c =
     (if isGameOver b \<or> isGameWon b then Returned b
      else if outOfRange b r c then Threw RangeError b
      else case cellAt b r c of
             None \<Rightarrow> Threw TypeError b
           | Some cell \<Rightarrow>
               if isOpened (state cell) then Returned b
               else if isMine (state cell)
               then openAllMines (b\<lparr> isGameOver := True, endTime := Some now \<rparr>)
               else (case (if adjacentMines (state cell) = 0
                           then openAdjacentCells now (openStep b r c) r c
                           else Returned (openStep b r c)) of
                       Threw e b2 \<Rightarrow> Threw e b2
                     | Returned b2 \<Rightarrow>
                         if openedCells b2 = rows b2 * cols b2 - mines b2
                         then Returned (b2\<lparr> isGameWon := True \<rparr>)
                         else Returned b2))"
  by (simp add: openCell.simps [of now b r c] outOfRange_def openStep_def Let_def set_isOpened_def
      cong: option.case_cong if_cong)

lemma openAround_Cons:
  "openAround (d # ds) now b r c =
     (case visit now b r c d of
        Threw e b' \<Rightarrow> Threw e b'
      | Returned b' \<Rightarrow> openAround ds now b' r c)"
proof -
  obtain dr dc where d: "d = (dr, dc)" by (cases d)
  have "visit now b r c (dr, dc) = (let newRow = r + dr; newCol = c + dc
            in if newRow < 0 \<or> newRow \<ge> rows b then Returned b
               else if newCol < 0 \<or> newCol \<ge> cols b then Returned b
               else (case cellAt b newRow newCol of
                       None \<Rightarrow> Threw TypeError b
                     | Some cell \<Rightarrow>
                         if isOpened (state cell) \<or> isFlagged (state cell) then Returned b
                         else if isMine (state cell) then Returned b
                         else openCell now b newRow newCol))"
    by (auto simp: visit_def outOfRange_def Let_def split: option.splits)
  then show ?thesis unfolding d by (simp only: openAround.simps)
qed

lemma openAdjacentCells_unfold:
  "openAdjacentCells now b r c =
     (if outOfRange b r c then Returned b else openAround directions now b r c)"
  by (auto simp: openAdjacentCells.simps outOfRange_def)

lemma flood_closure:
  assumes refl: "\<And>b. R b b"
    and trans: "\<And>b1 b2 b3. R b1 b2 \<Longrightarrow> R b2 b3 \<Longrightarrow> R b1 b3"
    and opn: "\<And>b r c cell. \<not> isGameOver b \<Longrightarrow> \<not> isGameWon b \<Longrightarrow> \<not> outOfRange b r c \<Longrightarrow>
       cellAt b r c = Some cell \<Longrightarrow> \<not> isOpened (state cell) \<Longrightarrow> \<not> isFlagged (state cell) \<Longrightarrow>
       \<not> isMine (state cell) \<Longrightarrow> R b (openStep b r c)"
    and win: "\<And>b. openedCells b = rows b * cols b - mines b \<Longrightarrow> R b (b\<lparr> isGameWon := True \<rparr>)"
  shows "(\<And>cell. cellAt b r c = Some cell \<Longrightarrow> \<not> isFlagged (state cell) \<and> \<not> isMine (state cell))
           \<Longrightarrow> R b (boardOf (openCell now b r c))"
    and "R b (boardOf (openAdjacentCells now b r c))"
    and "R b (boardOf (openAround ds now b r c))"
proof (induction now b r c and now b r c and ds now b r c
    rule: openCell_openAdjacentCells_openAround.induct)
  case (1 now b r c)
  show ?case
  proof (cases "cellAt b r c")
    case None
    then show ?thesis by (simp add: openCell_unfold refl)
  next
    case (Some cell)
    note cell = "1.prems" [OF Some]
    show ?thesis
    proof (cases "isGameOver b \<or> isGameWon b \<or> outOfRange b r c \<or> isOpened (state cell)")
      case True
      then show ?thesis using Some by (auto simp: openCell_unfold refl)
    next
      case False
      then have step: "R b (openStep b r c)"
        using opn Some cell by blast
      let ?f = "if adjacentMines (state cell) = 0
                then openAdjacentCells now (openStep b r c) r c
                else Returned (openStep b r c)"
      have "R (openStep b r c) (boardOf ?f)"
      proof (cases "adjacentMines (state cell) = 0")
        case True
        with "1.IH" [OF _ _ Some, of "openStep b r c"] False cell show ?thesis
          by (simp add: outOfRange_def openStep_def set_isOpened_def)
      next
        case False
        then show ?thesis by (simp add: refl)
      qed
      with step have f: "R b (boardOf ?f)" by (rule trans)
      have eq: "openCell now b r c = (case ?f of
                       Threw e b2 \<Rightarrow> Threw e b2
                     | Returned b2 \<Rightarrow>
                         if openedCells b2 = rows b2 * cols b2 - mines b2
                         then Returned (b2\<lparr> isGameWon := True \<rparr>)
                         else Returned b2)"
        using False Some cell by (simp add: openCell_unfold)
      show ?thesis
      proof (cases ?f)
        case (Returned b2)
        with f have "R b b2" by simp
        moreover have "openedCells b2 = rows b2 * cols b2 - mines b2 \<Longrightarrow> R b (b2\<lparr> isGameWon := True \<rparr>)"
          using \<open>R b b2\<close> win trans by blast
        ultimately show ?thesis unfolding eq Returned by simp
      next
        case (Threw e b2)
        with f show ?thesis unfolding eq by simp
      qed
    qed
  qed
next
  case (2 now b r c)
  then show ?case by (simp add: openAdjacentCells_unfold refl outOfRange_def)
next
  case (3 now b r c)
  show ?case by (simp add: openAround.simps refl)
next
  case (4 dirRow dirCol ds now b r c)
  let ?v = "visit now b r c (dirRow, dirCol)"
  have v: "R b (boardOf ?v)"
  proof (cases "cellAt b (r + dirRow) (c + dirCol)")
    case None
    then show ?thesis by (simp add: visit_def refl)
  next
    case (Some cell)
    show ?thesis
    proof (cases "outOfRange b (r + dirRow) (c + dirCol) \<or> isOpened (state cell)
        \<or> isFlagged (state cell) \<or> isMine (state cell)")
      case True
      then show ?thesis using Some by (auto simp: visit_def refl)
    next
      case False
      with "4.IH"(1) [OF _ _ _ _ Some] Some show ?thesis
        by (simp add: visit_def outOfRange_def)
    qed
  qed
  have veq: "(let newRow = r + dirRow; newCol = c + dirCol
            in if newRow < 0 \<or> newRow \<ge> rows b then Returned b
               else if newCol < 0 \<or> newCol \<ge> cols b then Returned b
               else (case cellAt b newRow newCol of
                       None \<Rightarrow> Threw TypeError b
                     | Some cell \<Rightarrow>
                         if isOpened (state cell) \<or> isFlagged (state cell) then Returned b
                         else if isMine (state cell) then Returned b
                         else openCell now b newRow newCol)) = ?v"
    by (auto simp: visit_def outOfRange_def Let_def split: option.splits)
  show ?case
  proof (cases ?v)
    case (Returned b')
    from "4.IH"(2) [of b'] veq Returned have "R b' (boardOf (openAround ds now b' r c))" by simp
    with v Returned have "R b (boardOf (openAround ds now b' r c))" using trans by simp
    with Returned show ?thesis by (simp add: openAround_Cons)
  next
    case (Threw e b')
    with v show ?thesis by (simp add: openAround_Cons)
  qed
qed

section \<open>What opening a cell preserves\<close>

lemma flood_induct [case_names openCell openAdjacentCells Nil Cons]:
  assumes "\<And>now b r c.
      (\<And>cell. \<not> isGameOver b \<Longrightarrow> \<not> isGameWon b \<Longrightarrow> \<not> outOfRange b r c \<Longrightarrow>
         cellAt b r c = Some cell \<Longrightarrow> \<not> isOpened (state cell) \<Longrightarrow> \<not> isMine (state cell) \<Longrightarrow>
         adjacentMines (state cell) = 0 \<Longrightarrow> Q now (openStep b r c) r c)
      \<Longrightarrow> P now b r c"
    and "\<And>now b r c. (\<not> outOfRange b r c \<Longrightarrow> L directions now b r c) \<Longrightarrow> Q now b r c"
    and "\<And>now b r c. L [] now b r c"
    and "\<And>d ds now b r c.
      (\<And>cell. \<not> outOfRange b (r + fst d) (c + snd d) \<Longrightarrow>
         cellAt b (r + fst d) (c + snd d) = Some cell \<Longrightarrow> \<not> isOpened (state cell) \<Longrightarrow>
         \<not> isFlagged (state cell) \<Longrightarrow> \<not> isMine (state cell) \<Longrightarrow>
         P now b (r + fst d) (c + snd d))
      \<Longrightarrow> (\<And>b'. visit now b r c d = Returned b' \<Longrightarrow> L ds now b' r c)
      \<Longrightarrow> L (d # ds) now b r c"
  shows "P now b r c" and "Q now b r c" and "L ds now b r c"
proof (induction now b r c and now b r c and ds now b r c
    rule: openCell_openAdjacentCells_openAround.induct)
  case (1 now b r c)
  show ?case
  proof (rule assms(1))
    fix cell
    assume "\<not> isGameOver b" "\<not> isGameWon b" "\<not> outOfRange b r c" "cellAt b r c = Some cell"
      "\<not> isOpened (state cell)" "\<not> isMine (state cell)" "adjacentMines (state cell) = 0"
    with "1.IH" [of cell "openStep b r c"] show "Q now (openStep b r c) r c"
      by (simp add: outOfRange_def openStep_def set_isOpened_def)
  qed
next
  case (2 now b r c)
  show ?case by (rule assms(2)) (use 2 in \<open>simp add: outOfRange_def\<close>)
next
  case (3 now b r c)
  show ?case by (rule assms(3))
next
  case (4 dirRow dirCol ds now b r c)
  have veq: "(let newRow = r + dirRow; newCol = c + dirCol
            in if newRow < 0 \<or> newRow \<ge> rows b then Returned b
               else if newCol < 0 \<or> newCol \<ge> cols b then Returned b
               else (case cellAt b newRow newCol of
                       None \<Rightarrow> Threw TypeError b
                     | Some cell \<Rightarrow>
                         if isOpened (state cell) \<or> isFlagged (state cell) then Returned b
                         else if isMine (state cell) then Returned b
                         else openCell now b newRow newCol)) = visit now b r c (dirRow, dirCol)"
    by (auto simp: visit_def outOfRange_def Let_def split: option.splits)
  show ?case
  proof (rule assms(4))
    fix cell
    assume "\<not> outOfRange b (r + fst (dirRow, dirCol)) (c + snd (dirRow, dirCol))"
      "cellAt b (r + fst (dirRow, dirCol)) (c + snd (dirRow, dirCol)) = Some cell"
      "\<not> isOpened (state cell)" "\<not> isFlagged (state cell)" "\<not> isMine (state cell)"
    with "4.IH"(1) [of "r + dirRow" "c + dirCol" cell]
    show "P now b (r + fst (dirRow, dirCol)) (c + snd (dirRow, dirCol))"
      by (simp add: outOfRange_def)
  next
    fix b'
    assume "visit now b r c (dirRow, dirCol) = Returned b'"
    with "4.IH"(2) [of b'] veq show "L ds now b' r c" by simp
  qed
qed

lemma sameCell_refl [simp]: "sameCell x x"
  by (simp add: sameCell_def)

lemma sameCell_trans: "sameCell x y \<Longrightarrow> sameCell y z \<Longrightarrow> sameCell x z"
  by (simp add: sameCell_def)

lemma grows_refl [simp]: "grows b b"
  by (simp add: grows_def)

lemma grows_trans:
  assumes "grows b1 b2" and "grows b2 b3"
  shows "grows b1 b3"
proof -
  have "\<exists>z. cellAt b3 r c = Some z \<and> sameCell x z" if "cellAt b1 r c = Some x" for r c x
  proof -
    from assms(1) that obtain y where y: "cellAt b2 r c = Some y" "sameCell x y"
      unfolding grows_def by blast
    from assms(2) y(1) obtain z where "cellAt b3 r c = Some z" "sameCell y z"
      unfolding grows_def by blast
    with y(2) show ?thesis by (blast intro: sameCell_trans)
  qed
  with assms show ?thesis by (simp add: grows_def)
qed

lemma shape_updateState: "map length (cells (updateState b r c f)) = map length (cells b)"
proof (cases "nat r < length (cells b)")
  case True
  then show ?thesis by (simp add: updateState_def map_update list_update_same_conv)
next
  case False
  then show ?thesis by (simp add: updateState_def list_update_beyond)
qed

lemma cellAt_shape:
  assumes "map length (cells b') = map length (cells b)"
  shows "(cellAt b' r c = None) = (cellAt b r c = None)"
proof -
  from arg_cong [OF assms, of length] have len: "length (cells b') = length (cells b)" by simp
  have "length (cells b' ! i) = length (cells b ! i)" if "i < length (cells b)" for i
    using arg_cong [OF assms, of "\<lambda>xs. xs ! i"] that len by simp
  with len show ?thesis by (auto simp: cellAt_def)
qed

lemma grows_fields [simp]:
  "grows b (b'\<lparr> openedCells := n \<rparr>) = grows b b'"
  "grows b (b'\<lparr> isGameWon := w \<rparr>) = grows b b'"
  "grows b (b'\<lparr> isGameOver := g \<rparr>) = grows b b'"
  "grows b (b'\<lparr> endTime := t \<rparr>) = grows b b'"
  "grows (b\<lparr> isGameOver := g \<rparr>) b' = grows b b'"
  "grows (b\<lparr> endTime := t \<rparr>) b' = grows b b'"
  by (simp_all add: grows_def)

lemma grows_updateState:
  assumes "cellAt b r c = Some cell"
    and "isMine (f (state cell)) = isMine (state cell)"
    and "isFlagged (f (state cell)) = isFlagged (state cell)"
    and "adjacentMines (f (state cell)) = adjacentMines (state cell)"
    and "isOpened (state cell) \<Longrightarrow> isOpened (f (state cell))"
  shows "grows b (updateState b r c f)"
  using assms by (auto simp: grows_def shape_updateState cellAt_updateState sameCell_def)

lemma grows_open: "cellAt b r c = Some cell \<Longrightarrow> grows b (updateState b r c (set_isOpened True))"
  by (rule grows_updateState) (simp_all add: set_isOpened_def)

lemma grows_openStep: "cellAt b r c = Some cell \<Longrightarrow> grows b (openStep b r c)"
  by (simp add: openStep_def grows_open)

lemma grows_cellAt:
  assumes "grows b b'" and "cellAt b r c = Some x"
  obtains y where "cellAt b' r c = Some y" and "sameCell x y"
  using assms unfolding grows_def by blast

lemma grows_cellAt_rev:
  assumes "grows b b'" and "cellAt b' r c = Some y"
  obtains x where "cellAt b r c = Some x" and "sameCell x y"
proof -
  from assms(1) have "map length (cells b') = map length (cells b)" by (simp add: grows_def)
  from cellAt_shape [OF this, of r c] assms(2) obtain x where x: "cellAt b r c = Some x" by auto
  with assms(1) obtain y' where "cellAt b' r c = Some y'" "sameCell x y'" by (rule grows_cellAt)
  with assms(2) x that show ?thesis by simp
qed

lemma grows_gridOK: "grows b b' \<Longrightarrow> gridOK b' = gridOK b"
  by (simp add: grows_def gridOK_def)

lemma grows_outOfRange: "grows b b' \<Longrightarrow> outOfRange b' = outOfRange b"
  by (simp add: grows_def outOfRange_def fun_eq_iff)

lemma flood_grows:
  "grows b (boardOf (openAdjacentCells now b r c))"
  "grows b (boardOf (openAround ds now b r c))"
proof -
  have opn: "grows b (openStep b r c)" if "cellAt b r c = Some cell" for b r c cell
    using that by (rule grows_openStep)
  have win: "grows b (b\<lparr> isGameWon := True \<rparr>)" for b by simp
  show "grows b (boardOf (openAdjacentCells now b r c))"
    by (rule flood_closure(2) [where R = grows]) (rule grows_refl, erule (1) grows_trans, erule opn, rule win)
  show "grows b (boardOf (openAround ds now b r c))"
    by (rule flood_closure(3) [where R = grows]) (rule grows_refl, erule (1) grows_trans, erule opn, rule win)
qed

lemma openMinesFrom_grows: "grows b (boardOf (openMinesFrom ms b))"
proof (induction ms arbitrary: b)
  case Nil
  then show ?case by simp
next
  case (Cons m ms)
  obtain r c where m: "m = (r, c)" by (cases m)
  show ?case
  proof (cases "cellAt b r c")
    case None
    with m show ?thesis by simp
  next
    case (Some cell)
    from grows_open [OF Some] Cons.IH [of "updateState b r c (set_isOpened True)"]
    have "grows b (boardOf (openMinesFrom ms (updateState b r c (set_isOpened True))))"
      by (rule grows_trans)
    with m Some show ?thesis by simp
  qed
qed

text \<open>What a call of \<open>openCell\<close> that opens a safe cell leaves.\<close>

lemma openCell_safe:
  assumes "\<not> isGameOver b" "\<not> isGameWon b" "\<not> outOfRange b r c" "cellAt b r c = Some cell"
    "\<not> isOpened (state cell)" "\<not> isMine (state cell)"
  shows "openCell now b r c =
         (case (if adjacentMines (state cell) = 0
                 then openAdjacentCells now (openStep b r c) r c
                 else Returned (openStep b r c)) of
            Threw e b2 \<Rightarrow> Threw e b2
          | Returned b2 \<Rightarrow>
              if openedCells b2 = rows b2 * cols b2 - mines b2
              then Returned (b2\<lparr> isGameWon := True \<rparr>)
              else Returned b2)"
  using assms by (simp add: openCell_unfold)

lemma openCell_mine:
  assumes "\<not> isGameOver b" "\<not> isGameWon b" "\<not> outOfRange b r c" "cellAt b r c = Some cell"
    "\<not> isOpened (state cell)" "isMine (state cell)"
  shows "openCell now b r c = openAllMines (b\<lparr> isGameOver := True, endTime := Some now \<rparr>)"
  using assms by (simp add: openCell_unfold)

lemma openCell_noop:
  assumes "isGameOver b \<or> isGameWon b \<or> outOfRange b r c \<or> cellAt b r c = None
    \<or> (\<exists>cell. cellAt b r c = Some cell \<and> isOpened (state cell))"
  shows "boardOf (openCell now b r c) = b"
  using assms by (auto simp: openCell_unfold split: option.splits)

lemma openCell_grows: "grows b (boardOf (openCell now b r c))"
proof (cases "isGameOver b \<or> isGameWon b \<or> outOfRange b r c \<or> cellAt b r c = None
    \<or> (\<exists>cell. cellAt b r c = Some cell \<and> isOpened (state cell))")
  case True
  then show ?thesis by (simp add: openCell_noop)
next
  case False
  then obtain cell where cell: "cellAt b r c = Some cell" "\<not> isOpened (state cell)"
    and act: "\<not> isGameOver b" "\<not> isGameWon b" "\<not> outOfRange b r c" by auto
  show ?thesis
  proof (cases "isMine (state cell)")
    case True
    from openMinesFrom_grows [of "b\<lparr> isGameOver := True, endTime := Some now \<rparr>" "minesList b"]
    show ?thesis by (simp add: openCell_mine [OF act cell True] openAllMines_def)
  next
    case False
    let ?f = "if adjacentMines (state cell) = 0
                 then openAdjacentCells now (openStep b r c) r c
                 else Returned (openStep b r c)"
    have "grows (openStep b r c) (boardOf ?f)" by (simp add: flood_grows)
    with grows_openStep [OF cell(1)] have "grows b (boardOf ?f)" by (rule grows_trans)
    then show ?thesis
      unfolding openCell_safe [OF act cell False] by (cases ?f) (simp_all split: if_splits)
  qed
qed

section \<open>Opening returns and counts\<close>

lemma visit_grows: "grows b (boardOf (visit now b r c d))"
  by (simp add: visit_def openCell_grows split: option.splits)

lemma openStep_fields [simp]:
  "rows (openStep b r c) = rows b"
  "cols (openStep b r c) = cols b"
  "mines (openStep b r c) = mines b"
  "minesList (openStep b r c) = minesList b"
  "flags (openStep b r c) = flags b"
  "openedCells (openStep b r c) = openedCells b + 1"
  "isGameOver (openStep b r c) = isGameOver b"
  "isGameWon (openStep b r c) = isGameWon b"
  "startTime (openStep b r c) = startTime b"
  "endTime (openStep b r c) = endTime b"
  "outOfRange (openStep b r c) = outOfRange b"
  "gridOK (openStep b r c) = gridOK b"
  by (simp_all add: openStep_def)

lemma flood_returns:
  "gridOK b \<Longrightarrow> \<not> outOfRange b r c \<Longrightarrow> (\<And>cell. cellAt b r c = Some cell \<Longrightarrow> \<not> isMine (state cell))
     \<Longrightarrow> returned (openCell now b r c)"
  "gridOK b \<Longrightarrow> returned (openAdjacentCells now b r c)"
  "gridOK b \<Longrightarrow> returned (openAround ds now b r c)"
proof (induction now b r c and now b r c and ds now b r c rule: flood_induct)
  case (openCell now b r c)
  from gridOK_cellAt [OF openCell.prems(1,2)] obtain cell where cell: "cellAt b r c = Some cell" ..
  note safe = openCell.prems(3) [OF cell]
  show ?case
  proof (cases "isGameOver b \<or> isGameWon b \<or> isOpened (state cell)")
    case True
    with cell openCell.prems(2) show ?thesis by (auto simp: openCell_unfold)
  next
    case False
    let ?f = "if adjacentMines (state cell) = 0
                 then openAdjacentCells now (openStep b r c) r c
                 else Returned (openStep b r c)"
    have "returned ?f"
      using openCell.IH [of cell] False openCell.prems(1,2) cell safe by simp
    then show ?thesis
      using False openCell.prems(2) cell safe
      by (cases ?f) (simp_all add: openCell_safe split: if_splits)
  qed
next
  case (openAdjacentCells now b r c)
  then show ?case by (simp add: openAdjacentCells_unfold)
next
  case (Nil now b r c)
  show ?case by (simp add: openAround.simps)
next
  case (Cons d ds now b r c)
  have v: "returned (visit now b r c d)"
  proof (cases "outOfRange b (r + fst d) (c + snd d)")
    case True
    then show ?thesis by (simp add: visit_def)
  next
    case False
    from gridOK_cellAt [OF Cons.prems False] obtain cell
      where cell: "cellAt b (r + fst d) (c + snd d) = Some cell" ..
    show ?thesis
    proof (cases "isOpened (state cell) \<or> isFlagged (state cell) \<or> isMine (state cell)")
      case True
      with cell False show ?thesis by (simp add: visit_def)
    next
      case no: False
      with Cons.IH(1) [OF False cell] Cons.prems False cell show ?thesis
        by (simp add: visit_def)
    qed
  qed
  then obtain b' where b': "visit now b r c d = Returned b'" by (cases "visit now b r c d") simp_all
  from visit_grows [of b now r c d] b' have "grows b b'" by simp
  with Cons.prems have "gridOK b'" by (simp add: grows_gridOK)
  with Cons.IH(2) [OF b'] b' show ?case by (simp add: openAround_Cons)
qed

lemma openMinesFrom_returns:
  "\<forall>(r, c) \<in> set ms. cellAt b r c \<noteq> None \<Longrightarrow> returned (openMinesFrom ms b)"
proof (induction ms arbitrary: b)
  case Nil
  then show ?case by simp
next
  case (Cons m ms)
  obtain r c where m: "m = (r, c)" by (cases m)
  with Cons.prems obtain cell where cell: "cellAt b r c = Some cell" by auto
  have "\<forall>(r', c') \<in> set ms. cellAt (updateState b r c (set_isOpened True)) r' c' \<noteq> None"
    using Cons.prems by (auto simp: cellAt_updateState [OF cell])
  from Cons.IH [OF this] m cell show ?case by simp
qed

lemma openCell_returns:
  assumes "gridOK b" and "minesListed b" and "\<not> outOfRange b r c"
  shows "returned (openCell now b r c)"
proof -
  from gridOK_cellAt [OF assms(1,3)] obtain cell where cell: "cellAt b r c = Some cell" ..
  show ?thesis
  proof (cases "isMine (state cell) \<and> \<not> isOpened (state cell) \<and> \<not> isGameOver b \<and> \<not> isGameWon b")
    case True
    have "\<forall>(r', c') \<in> set (minesList b).
        cellAt (b\<lparr> isGameOver := True, endTime := Some now \<rparr>) r' c' \<noteq> None"
      using assms(2) by (auto simp: minesListed_def split: option.splits)
    from openMinesFrom_returns [OF this] True cell assms(3) show ?thesis
      by (simp add: openCell_mine openAllMines_def)
  next
    case False
    show ?thesis
    proof (cases "isGameOver b \<or> isGameWon b \<or> isOpened (state cell)")
      case True
      with cell assms(3) show ?thesis by (auto simp: openCell_unfold)
    next
      case no: False
      with False have "\<not> isMine (state cell)" by simp
      with cell show ?thesis by (intro flood_returns(1) assms) simp
    qed
  qed
qed

text \<open>The counter of opened cells moves with the number of opened safe cells.\<close>

lemma safeOpened_openStep:
  assumes "cellAt b r c = Some cell" "\<not> isOpened (state cell)" "\<not> isMine (state cell)"
  shows "safeOpened (openStep b r c) = safeOpened b + 1"
  using countCells_updateState [OF assms(1), of "\<lambda>s. isOpened s \<and> \<not> isMine s" "set_isOpened True"] assms(2,3)
  by (simp add: safeOpened_def openStep_def set_isOpened_def)

lemma safeOpened_fields [simp]:
  "safeOpened (b\<lparr> isGameWon := w \<rparr>) = safeOpened b"
  "safeOpened (b\<lparr> isGameOver := g \<rparr>) = safeOpened b"
  "safeOpened (b\<lparr> endTime := t \<rparr>) = safeOpened b"
  "safeOpened (b\<lparr> startTime := t \<rparr>) = safeOpened b"
  "safeOpened (b\<lparr> flags := n \<rparr>) = safeOpened b"
  "safeOpened (b\<lparr> openedCells := n \<rparr>) = safeOpened b"
  by (simp_all add: safeOpened_def)

lemma flood_count:
  "openedCells (boardOf (openAdjacentCells now b r c)) - int (safeOpened (boardOf (openAdjacentCells now b r c)))
     = openedCells b - int (safeOpened b)"
  "openedCells (boardOf (openAround ds now b r c)) - int (safeOpened (boardOf (openAround ds now b r c)))
     = openedCells b - int (safeOpened b)"
proof -
  let ?R = "\<lambda>b b'. openedCells b' - int (safeOpened b') = openedCells b - int (safeOpened b)"
  have opn: "?R b (openStep b r c)"
    if "cellAt b r c = Some cell" "\<not> isOpened (state cell)" "\<not> isMine (state cell)" for b r c cell
    using safeOpened_openStep [OF that] by simp
  have win: "?R b (b\<lparr> isGameWon := True \<rparr>)" for b by simp
  show "?R b (boardOf (openAdjacentCells now b r c))"
    by (rule flood_closure(2) [where R = ?R]) (simp, simp, erule (1) opn, assumption, rule win)
  show "?R b (boardOf (openAround ds now b r c))"
    by (rule flood_closure(3) [where R = ?R]) (simp, simp, erule (1) opn, assumption, rule win)
qed

lemma openMinesFrom_safeOpened:
  "\<forall>(r, c) \<in> set ms. case cellAt b r c of None \<Rightarrow> False | Some cell \<Rightarrow> isMine (state cell)
     \<Longrightarrow> safeOpened (boardOf (openMinesFrom ms b)) = safeOpened b
       \<and> openedCells (boardOf (openMinesFrom ms b)) = openedCells b
       \<and> isGameOver (boardOf (openMinesFrom ms b)) = isGameOver b
       \<and> isGameWon (boardOf (openMinesFrom ms b)) = isGameWon b
       \<and> endTime (boardOf (openMinesFrom ms b)) = endTime b"
proof (induction ms arbitrary: b)
  case Nil
  then show ?case by simp
next
  case (Cons m ms)
  obtain r c where m: "m = (r, c)" by (cases m)
  with Cons.prems obtain cell where cell: "cellAt b r c = Some cell" "isMine (state cell)"
    by (auto split: option.splits)
  let ?b = "updateState b r c (set_isOpened True)"
  have "\<forall>(r', c') \<in> set ms. case cellAt ?b r' c' of None \<Rightarrow> False | Some cell \<Rightarrow> isMine (state cell)"
    using Cons.prems cell by (auto simp: cellAt_updateState [OF cell(1)] set_isOpened_def)
  note IH = Cons.IH [OF this]
  have "safeOpened ?b = safeOpened b"
    using countCells_updateState [OF cell(1), of "\<lambda>s. isOpened s \<and> \<not> isMine s" "set_isOpened True"] cell(2)
    by (simp add: safeOpened_def set_isOpened_def)
  with IH m cell show ?case by simp
qed

lemma openCell_count:
  assumes "minesListed b"
  shows "openedCells (boardOf (openCell now b r c)) - int (safeOpened (boardOf (openCell now b r c)))
     = openedCells b - int (safeOpened b)"
proof (cases "isGameOver b \<or> isGameWon b \<or> outOfRange b r c \<or> cellAt b r c = None
    \<or> (\<exists>cell. cellAt b r c = Some cell \<and> isOpened (state cell))")
  case True
  then show ?thesis by (simp add: openCell_noop)
next
  case False
  then obtain cell where cell: "cellAt b r c = Some cell" "\<not> isOpened (state cell)"
    and act: "\<not> isGameOver b" "\<not> isGameWon b" "\<not> outOfRange b r c" by auto
  show ?thesis
  proof (cases "isMine (state cell)")
    case True
    have "\<forall>(r', c') \<in> set (minesList b).
        case cellAt (b\<lparr> isGameOver := True, endTime := Some now \<rparr>) r' c' of None \<Rightarrow> False
        | Some cell \<Rightarrow> isMine (state cell)"
      using assms by (simp add: minesListed_def)
    from openMinesFrom_safeOpened [OF this]
    show ?thesis by (simp add: openCell_mine [OF act cell True] openAllMines_def)
  next
    case False
    let ?f = "if adjacentMines (state cell) = 0
                 then openAdjacentCells now (openStep b r c) r c
                 else Returned (openStep b r c)"
    have "openedCells (boardOf ?f) - int (safeOpened (boardOf ?f))
        = openedCells (openStep b r c) - int (safeOpened (openStep b r c))"
      by (simp add: flood_count)
    with safeOpened_openStep [OF cell False]
    have "openedCells (boardOf ?f) - int (safeOpened (boardOf ?f)) = openedCells b - int (safeOpened b)"
      by simp
    then show ?thesis
      unfolding openCell_safe [OF act cell False] by (cases ?f) (simp_all split: if_splits)
  qed
qed

section \<open>Coordinates and shuffling\<close>

subsection \<open>Coordinates\<close>

lemma set_coords: "set (coords b) = {(r, c). \<not> outOfRange b r c}"
proof -
  have "(r, c) \<in> set (coords b) \<longleftrightarrow> \<not> outOfRange b r c" for r c
    by (simp add: coords_def outOfRange_def image_iff) linarith
  then show ?thesis by auto
qed

lemma distinct_coords: "distinct (coords b)"
proof -
  have "distinct (concat (map (\<lambda>r. map (Pair r) cs) rs))" if "distinct rs" "distinct cs"
    for rs cs :: "int list"
    using that by (induction rs) (auto simp: distinct_map inj_on_def)
  then show ?thesis by (simp add: coords_def)
qed

lemma length_coords: "length (coords b) = nat (rows b) * nat (cols b)"
proof -
  have "length (concat (map (\<lambda>r. map (Pair r) cs) rs)) = length rs * length cs"
    for rs cs :: "int list"
    by (induction rs) auto
  then show ?thesis by (simp add: coords_def)
qed

lemma buildCellsListWithoutMines_filter:
  "buildCellsListWithoutMines b ex = filter (\<lambda>p. p \<notin> ex) (coords b)"
proof -
  have "concat (map (\<lambda>r. concat (map (\<lambda>c. if (r, c) \<notin> ex then [(r, c)] else []) cs)) rs)
      = filter (\<lambda>p. p \<notin> ex) (concat (map (\<lambda>r. map (Pair r) cs) rs))" for rs cs :: "int list"
  proof (induction rs)
    case Nil
    then show ?case by simp
  next
    case (Cons r rs)
    have "concat (map (\<lambda>c. if (r, c) \<notin> ex then [(r, c)] else []) cs)
        = filter (\<lambda>p. p \<notin> ex) (map (Pair r) cs)"
      by (induction cs) auto
    with Cons show ?case by simp
  qed
  then show ?thesis by (simp add: buildCellsListWithoutMines_def coords_def)
qed

subsection \<open>Shuffling\<close>

lemma shuffleFrom_mset: "i < length xs \<or> i = 0 \<Longrightarrow> mset (fst (shuffleFrom i rnd k xs)) = mset xs"
proof (induction i arbitrary: k xs)
  case 0
  then show ?case by simp
next
  case (Suc i)
  then have len: "Suc i < length xs" by simp
  let ?j = "randomBelow rnd k (Suc i + 1)"
  have j: "?j < length xs" using len by (simp add: randomBelow_def) (meson less_Suc_eq_le less_le_trans mod_less_divisor not_less_eq zero_less_Suc less_trans)
  let ?ys = "xs[Suc i := xs ! ?j, ?j := xs ! Suc i]"
  have "mset ?ys = mset xs" using mset_swap [OF j len] by simp
  moreover have "mset (fst (shuffleFrom i rnd (k + 1) ?ys)) = mset ?ys"
    using len by (intro Suc.IH) simp
  ultimately show ?case by (simp add: Let_def)
qed

lemma shuffleArray_mset: "mset (fst (shuffleArray rnd k xs)) = mset xs"
  unfolding shuffleArray_def by (rule shuffleFrom_mset) (cases xs; simp)

lemma shuffleArray_set: "set (fst (shuffleArray rnd k xs)) = set xs"
  using shuffleArray_mset [of rnd k xs] by (rule mset_eq_setD)

lemma shuffleArray_distinct: "distinct (fst (shuffleArray rnd k xs)) = distinct xs"
  using shuffleArray_mset [of rnd k xs] by (rule mset_eq_imp_distinct_iff)

lemma shuffleArray_length: "length (fst (shuffleArray rnd k xs)) = length xs"
  using shuffleArray_mset [of rnd k xs] by (rule mset_eq_length)

section \<open>Placing the mines\<close>

lemma setupRel_refl [simp]: "setupRel b b"
  by (simp add: setupRel_def)

lemma setupRel_trans:
  assumes "setupRel b1 b2" and "setupRel b2 b3"
  shows "setupRel b1 b3"
proof -
  have "\<exists>z. cellAt b3 r c = Some z \<and> (pristine (state x) \<longrightarrow> pristine (state z))
      \<and> (isMine (state x) \<longrightarrow> isMine (state z))" if "cellAt b1 r c = Some x" for r c x
  proof -
    from assms(1) that obtain y where y: "cellAt b2 r c = Some y"
      "pristine (state x) \<longrightarrow> pristine (state y)" "isMine (state x) \<longrightarrow> isMine (state y)"
      unfolding setupRel_def by blast
    from assms(2) y(1) obtain z where "cellAt b3 r c = Some z"
      "pristine (state y) \<longrightarrow> pristine (state z)" "isMine (state y) \<longrightarrow> isMine (state z)"
      unfolding setupRel_def by blast
    with y(2,3) show ?thesis by blast
  qed
  with assms show ?thesis by (simp add: setupRel_def)
qed

lemma setupRel_updateState:
  assumes "cellAt b r c = Some cell"
    and "pristine (state cell) \<Longrightarrow> pristine (f (state cell))"
    and "isMine (state cell) \<Longrightarrow> isMine (f (state cell))"
  shows "setupRel b (updateState b r c f)"
  using assms by (auto simp: setupRel_def shape_updateState cellAt_updateState)

lemma setupRel_minesList [simp]: "setupRel b (b'\<lparr> minesList := ms \<rparr>) = setupRel b b'"
  by (simp add: setupRel_def)

lemma pristine_set_isMine [simp]: "pristine (set_isMine v s)"
  by (simp add: pristine_def set_isMine_def)

lemma pristine_set_adjacentMines [simp]: "pristine (set_adjacentMines v s) = pristine s"
  by (simp add: pristine_def set_adjacentMines_def Let_def)

lemma isMine_set_adjacentMines [simp]: "isMine (set_adjacentMines v s) = isMine s"
  by (simp add: set_adjacentMines_def Let_def)

lemma placeLoop_setupRel: "setupRel b (boardOf (placeLoop n cs b))"
proof (induction n cs b rule: placeLoop.induct)
  case (1 cellList b)
  then show ?case by simp
next
  case (2 n b)
  then show ?case by simp
next
  case (3 n r c cellList b)
  show ?case
  proof (cases "cellAt b r c")
    case None
    then show ?thesis by simp
  next
    case (Some cell)
    let ?b = "(updateState b r c (set_isMine True))\<lparr> minesList := minesList b @ [(r, c)] \<rparr>"
    have "isMine (set_isMine True s)" for s by (simp add: set_isMine_def)
    then have 1: "setupRel b ?b"
      by (simp add: setupRel_updateState [OF Some])
    have 2: "setupRel ?b (boardOf (placeLoop n cellList ?b))" by (rule "3.IH" [OF Some])
    from setupRel_trans [OF 1 2] Some show ?thesis by simp
  qed
qed

text \<open>
  What the loop leaves when the cells it is given are distinct cells of the grid: the
  first \<open>n\<close> of them are mines and listed, and the loop returns unless it runs out of
  cells.
\<close>

lemma placeLoop_mines:
  assumes "distinct cs" and "\<forall>(r, c) \<in> set cs. cellAt b r c \<noteq> None"
  shows "minesList (boardOf (placeLoop n cs b)) = minesList b @ take n cs"
    and "returned (placeLoop n cs b) \<longleftrightarrow> n \<le> length cs"
    and "cellAt (boardOf (placeLoop n cs b)) r c
      = (if (r, c) \<in> set (take n cs)
         then map_option (\<lambda>cell. cell\<lparr> state := set_isMine True (state cell) \<rparr>) (cellAt b r c)
         else cellAt b r c)"
    and "(\<forall>(r, c) \<in> set cs. case cellAt b r c of None \<Rightarrow> True | Some cell \<Rightarrow> \<not> isMine (state cell))
      \<Longrightarrow> countCells isMine (boardOf (placeLoop n cs b)) = countCells isMine b + min n (length cs)"
  using assms
proof (induction n cs b rule: placeLoop.induct)
  case (1 cellList b)
  {
    case 1 show ?case by simp
  next
    case 2 show ?case by simp
  next
    case 3 show ?case by simp
  next
    case 4 show ?case by simp
  }
next
  case (2 n b)
  {
    case 1 show ?case by simp
  next
    case 2 show ?case by simp
  next
    case 3 show ?case by simp
  next
    case 4 show ?case by simp
  }
next
  case (3 n r0 c0 cellList b)
  let ?b = "(updateState b r0 c0 (set_isMine True))\<lparr> minesList := minesList b @ [(r0, c0)] \<rparr>"
  {
    case 1
    then obtain cell where cell: "cellAt b r0 c0 = Some cell" by auto
    from 1 have d: "distinct cellList" and
      ex: "\<forall>(r, c) \<in> set cellList. cellAt ?b r c \<noteq> None"
      by (auto simp: cellAt_updateState [OF cell])
    from "3.IH"(1) [OF cell d ex] cell show ?case by simp
  next
    case 2
    then obtain cell where cell: "cellAt b r0 c0 = Some cell" by auto
    from 2 have d: "distinct cellList" and
      ex: "\<forall>(r, c) \<in> set cellList. cellAt ?b r c \<noteq> None"
      by (auto simp: cellAt_updateState [OF cell])
    from "3.IH"(2) [OF cell d ex] cell show ?case by simp
  next
    case 3
    then obtain cell where cell: "cellAt b r0 c0 = Some cell" by auto
    from 3 have d: "distinct cellList" and
      ex: "\<forall>(r, c) \<in> set cellList. cellAt ?b r c \<noteq> None"
      and notin: "(r0, c0) \<notin> set cellList"
      by (auto simp: cellAt_updateState [OF cell])
    have "(r0, c0) \<notin> set (take n cellList)" using notin by (meson in_set_takeD)
    with "3.IH"(3) [OF cell d ex] cell show ?case
      by (auto simp: cellAt_updateState [OF cell])
  next
    case 4
    then obtain cell where cell: "cellAt b r0 c0 = Some cell" "\<not> isMine (state cell)"
      by (auto split: option.splits)
    from 4 have d: "distinct cellList" and
      ex: "\<forall>(r, c) \<in> set cellList. cellAt ?b r c \<noteq> None"
      and nm: "\<forall>(r, c) \<in> set cellList. case cellAt ?b r c of None \<Rightarrow> True
                 | Some cell \<Rightarrow> \<not> isMine (state cell)"
      by (auto simp: cellAt_updateState [OF cell(1)] split: option.splits)
    have "countCells isMine ?b = countCells isMine b + 1"
      using countCells_updateState [OF cell(1), of isMine "set_isMine True"] cell(2)
      by (simp add: set_isMine_def)
    with "3.IH"(4) [OF cell(1) nm d ex] cell show ?case by simp
  }
qed

section \<open>Counting the neighbours\<close>

lemma setupRel_gridOK: "setupRel b b' \<Longrightarrow> gridOK b' = gridOK b"
  by (simp add: setupRel_def gridOK_def)

lemma calcRel_refl [simp]: "calcRel b b"
  by (simp add: calcRel_def)

lemma calcRel_trans:
  assumes "calcRel b1 b2" and "calcRel b2 b3"
  shows "calcRel b1 b3"
proof -
  have "isMine (state z) = isMine (state x)"
    if "cellAt b1 r c = Some x" "cellAt b3 r c = Some z" for r c x z
  proof -
    from assms(1) that(1) obtain y where y: "cellAt b2 r c = Some y"
      unfolding calcRel_def setupRel_def by blast
    with assms that show ?thesis unfolding calcRel_def by metis
  qed
  with assms show ?thesis by (auto simp: calcRel_def intro: setupRel_trans)
qed

lemma calcRel_bump:
  assumes "cellAt b r c = Some cell"
  shows "calcRel b (updateState b r c (\<lambda>s. set_adjacentMines (adjacentMines s + 1) s))"
proof -
  let ?f = "\<lambda>s. set_adjacentMines (adjacentMines s + 1) s"
  have "setupRel b (updateState b r c ?f)"
    by (rule setupRel_updateState [OF assms]) simp_all
  moreover have "countCells isMine (updateState b r c ?f) = countCells isMine b"
    using countCells_updateState [OF assms, of isMine ?f] by simp
  ultimately show ?thesis
    using assms by (auto simp: calcRel_def cellAt_updateState [OF assms] split: if_splits)
qed

lemma countAround_calcRel: "calcRel b (boardOf (countAround ds r c b))"
proof (induction ds arbitrary: b)
  case Nil
  then show ?case by simp
next
  case (Cons d ds)
  obtain dr dc where d: "d = (dr, dc)" by (cases d)
  show ?case
  proof (cases "cellAt b (r + dr) (c + dc)")
    case None
    with Cons.IH [of b] d show ?thesis by (simp add: Let_def)
  next
    case (Some cell)
    from calcRel_trans [OF calcRel_bump [OF Some] Cons.IH] Cons.IH [of b] d Some
    show ?thesis by (simp add: Let_def)
  qed
qed

lemma countMinesFrom_calcRel: "calcRel b (boardOf (countMinesFrom ms b))"
proof (induction ms arbitrary: b)
  case Nil
  then show ?case by simp
next
  case (Cons m ms)
  obtain r c where m: "m = (r, c)" by (cases m)
  show ?case
  proof (cases "countAround directions r c b")
    case (Returned b')
    with countAround_calcRel [of b directions r c] have "calcRel b b'" by simp
    from calcRel_trans [OF this Cons.IH] m Returned show ?thesis by simp
  next
    case (Threw e b')
    with countAround_calcRel [of b directions r c] m show ?thesis by simp
  qed
qed

lemma countAround_returns: "gridOK b \<Longrightarrow> returned (countAround ds r c b)"
proof (induction ds arbitrary: b)
  case Nil
  then show ?case by simp
next
  case (Cons d ds)
  obtain dr dc where d: "d = (dr, dc)" by (cases d)
  show ?case
  proof (cases "outOfRange b (r + dr) (c + dc)")
    case True
    with Cons d show ?thesis by (auto simp: Let_def outOfRange_def)
  next
    case False
    from gridOK_cellAt [OF Cons.prems False] obtain cell
      where cell: "cellAt b (r + dr) (c + dc) = Some cell" ..
    let ?b = "updateState b (r + dr) (c + dc) (\<lambda>s. set_adjacentMines (adjacentMines s + 1) s)"
    have "gridOK ?b" using Cons.prems by simp
    with Cons.IH [of b] Cons.IH [of ?b] Cons.prems d False cell show ?thesis
      by (simp add: Let_def outOfRange_def)
  qed
qed

lemma countMinesFrom_returns: "gridOK b \<Longrightarrow> returned (countMinesFrom ms b)"
proof (induction ms arbitrary: b)
  case Nil
  then show ?case by simp
next
  case (Cons m ms)
  obtain r c where m: "m = (r, c)" by (cases m)
  from countAround_returns [OF Cons.prems, of directions r c]
  obtain b' where b': "countAround directions r c b = Returned b'"
    by (cases "countAround directions r c b") simp_all
  with countAround_calcRel [of b directions r c] have "setupRel b b'" by (simp add: calcRel_def)
  with Cons.prems have "gridOK b'" by (simp add: setupRel_gridOK)
  from Cons.IH [OF this] m b' show ?case by simp
qed

subsection \<open>The cells offered to the mines\<close>

lemma filter_notin_length:
  assumes "distinct xs" and "finite A"
  shows "length xs - card A \<le> length (filter (\<lambda>p. p \<notin> A) xs)"
proof -
  have "distinct (filter (\<lambda>p. p \<in> A) xs)" using assms(1) by simp
  from distinct_card [OF this]
  have "length (filter (\<lambda>p. p \<in> A) xs) = card (set (filter (\<lambda>p. p \<in> A) xs))" by simp
  also have "\<dots> \<le> card A" using assms(2) by (intro card_mono) auto
  finally have "length (filter (\<lambda>p. p \<in> A) xs) \<le> card A" .
  moreover have "length (filter (\<lambda>p. p \<in> A) xs) + length (filter (\<lambda>p. p \<notin> A) xs) = length xs"
    using sum_length_filter_compl [of "\<lambda>p. p \<in> A" xs] by simp
  ultimately show ?thesis by linarith
qed

lemma cellListOf_props:
  shows cellListOf_distinct: "distinct (cellListOf rnd b r c)"
    and cellListOf_inside: "set (cellListOf rnd b r c) \<subseteq> set (coords b)"
    and cellListOf_start: "(r, c) \<notin> set (cellListOf rnd b r c)"
    and cellListOf_length: "nat (rows b) * nat (cols b) - 1 - length (getAdjacentCells b r c)
        \<le> length (cellListOf rnd b r c)"
proof -
  obtain sh k where sh: "shuffleArray rnd 0 (getAdjacentCells b r c) = (sh, k)"
    by (cases "shuffleArray rnd 0 (getAdjacentCells b r c)")
  let ?ex = "set ((r, c) # take (randomBelow rnd k (length sh) + 1) sh)"
  have eq: "cellListOf rnd b r c = fst (shuffleArray rnd (k + 1) (filter (\<lambda>p. p \<notin> ?ex) (coords b)))"
    by (simp add: cellListOf_def sh Let_def buildCellsListWithoutMines_filter)
  show "distinct (cellListOf rnd b r c)"
    by (simp add: eq shuffleArray_distinct distinct_coords del: set_simps)
  show "set (cellListOf rnd b r c) \<subseteq> set (coords b)"
    by (simp add: eq shuffleArray_set del: set_simps)
  show "(r, c) \<notin> set (cellListOf rnd b r c)"
    by (simp add: eq shuffleArray_set)
  have "length sh = length (getAdjacentCells b r c)"
    using shuffleArray_length [of rnd 0 "getAdjacentCells b r c"] sh by simp
  then have "card ?ex \<le> 1 + length (getAdjacentCells b r c)"
    using card_length [of "(r, c) # take (randomBelow rnd k (length sh) + 1) sh"] by simp
  moreover have "length (coords b) - card ?ex \<le> length (filter (\<lambda>p. p \<notin> ?ex) (coords b))"
    by (rule filter_notin_length) (simp_all add: distinct_coords del: set_simps)
  ultimately show "nat (rows b) * nat (cols b) - 1 - length (getAdjacentCells b r c)
        \<le> length (cellListOf rnd b r c)"
    by (simp add: eq shuffleArray_length length_coords del: set_simps)
qed

lemma placeMines_unfold:
  "placeMines rnd b r c =
     (case placeLoop (nat (mines b)) (cellListOf rnd b r c) b of
        Threw e b' \<Rightarrow> Threw e b'
      | Returned b' \<Rightarrow> calculateAdjacentMines b')"
  by (simp add: placeMines_def cellListOf_def Let_def split: prod.splits)

section \<open>Starting a game\<close>

subsection \<open>Cells of the grid\<close>

lemma cellAt_in_cells: "cellAt b r c = Some cell \<Longrightarrow> cell \<in> set (concat (cells b))"
  by (auto simp: cellAt_def split: if_splits intro!: bexI [of _ "cells b ! nat r"])

lemma in_cells_cellAt:
  assumes "cell \<in> set (concat (cells b))"
  obtains r c where "cellAt b r c = Some cell"
proof -
  from assms obtain rw where rw: "rw \<in> set (cells b)" "cell \<in> set rw" by auto
  then obtain i j where "i < length (cells b)" "cells b ! i = rw" "j < length rw" "rw ! j = cell"
    by (metis in_set_conv_nth)
  then have "cellAt b (int i) (int j) = Some cell" by (simp add: cellAt_def)
  then show ?thesis by (rule that)
qed

lemma countCells_zero_iff:
  "countCells P b = 0 \<longleftrightarrow> (\<forall>r c cell. cellAt b r c = Some cell \<longrightarrow> \<not> P (state cell))"
proof
  assume "countCells P b = 0"
  then have "\<forall>cell \<in> set (concat (cells b)). \<not> P (state cell)"
    by (simp add: countCells_def filter_empty_conv)
  then show "\<forall>r c cell. cellAt b r c = Some cell \<longrightarrow> \<not> P (state cell)"
    using cellAt_in_cells by blast
next
  assume a: "\<forall>r c cell. cellAt b r c = Some cell \<longrightarrow> \<not> P (state cell)"
  have "\<not> P (state cell)" if "cell \<in> set (concat (cells b))" for cell
    using in_cells_cellAt [OF that] a by blast
  then show "countCells P b = 0" by (simp add: countCells_def filter_empty_conv)
qed

subsection \<open>A fresh grid\<close>

lemma reset_fields [simp]:
  "rows (reset b) = rows b" "cols (reset b) = cols b" "mines (reset b) = mines b"
  "difficulty (reset b) = difficulty b" "minesList (reset b) = []" "flags (reset b) = 0"
  "openedCells (reset b) = 0" "isGameOver (reset b) = False" "isGameWon (reset b) = False"
  "startTime (reset b) = None" "endTime (reset b) = None"
  "outOfRange (reset b) = outOfRange b" "coords (reset b) = coords b"
  by (simp_all add: reset_def outOfRange_def fun_eq_iff coords_def)

lemma cellAt_reset:
  "cellAt (reset b) r c = (if outOfRange b r c then None else Some (newCell r c))"
proof -
  have "reset b = (reset b)\<lparr> cells := init (rows b) (cols b) \<rparr>" by (simp add: reset_def)
  then have "cellAt (reset b) r c
      = (if 0 \<le> r \<and> r < rows b \<and> 0 \<le> c \<and> c < cols b then Some (newCell r c) else None)"
    using cellAt_init [where b = "reset b" and n = "rows b" and m = "cols b" and r = r and c = c]
    by simp
  then show ?thesis by (auto simp: outOfRange_def)
qed

lemma pristine_new [simp]: "pristine newCellState" "\<not> isMine newCellState"
  by (simp_all add: pristine_def newCellState_def)

lemma state_newCell [simp]: "state (newCell r c) = newCellState"
  by (simp add: newCell_def)

lemma sound_reset: "sound (reset b)"
proof -
  have "safeOpened (reset b) = 0"
    unfolding safeOpened_def countCells_zero_iff
    by (auto simp: cellAt_reset newCellState_def split: if_splits)
  moreover have "allMinesListed (reset b)"
    by (auto simp: allMinesListed_def cellAt_reset)
  ultimately show ?thesis by (simp add: sound_def minesListed_def)
qed

lemma sound_newBoard: "sound (newBoard d)"
  unfolding newBoard_def by (rule sound_reset)

subsection \<open>What \<open>startGame\<close> leaves\<close>

lemma setupRel_cellAtD:
  assumes "setupRel b b'" and "cellAt b r c = Some x"
  shows "\<exists>y. cellAt b' r c = Some y \<and> (pristine (state x) \<longrightarrow> pristine (state y))
    \<and> (isMine (state x) \<longrightarrow> isMine (state y))"
  using assms unfolding setupRel_def by blast

lemma setupRel_fieldsD:
  assumes "setupRel b b'"
  shows "rows b' = rows b" "cols b' = cols b" "mines b' = mines b" "flags b' = flags b"
    "openedCells b' = openedCells b" "isGameOver b' = isGameOver b" "isGameWon b' = isGameWon b"
    "startTime b' = startTime b" "endTime b' = endTime b" "difficulty b' = difficulty b"
    "map length (cells b') = map length (cells b)"
  using assms unfolding setupRel_def by simp_all

lemma calcRel_D:
  assumes "calcRel b b'"
  shows "setupRel b b'" "minesList b' = minesList b" "countCells isMine b' = countCells isMine b"
    "cellAt b r c = Some x \<Longrightarrow> cellAt b' r c = Some y \<Longrightarrow> isMine (state y) = isMine (state x)"
  using assms unfolding calcRel_def by blast+

lemma startGame_out: "outOfRange b r c \<Longrightarrow> startGame rnd now b r c = Threw RangeError b"
  by (simp add: startGame_def outOfRange_def)

text \<open>
  For a cell of the board, \<open>startGame\<close> either runs through, or it runs out of cells
  for the mines and throws. In both cases the grid is new, and the mines are the
  cells of the list of mines, which are the first cells of the shuffled list.
\<close>

lemma startGame_result:
  fixes rnd :: "nat \<Rightarrow> nat" and now :: int
  assumes inside: "\<not> outOfRange b r c"
  defines "cs \<equiv> cellListOf rnd (reset b) r c"
  defines "b' \<equiv> boardOf (startGame rnd now b r c)"
  shows "returned (startGame rnd now b r c) \<longleftrightarrow> nat (mines b) \<le> length cs"
    and "rows b' = rows b \<and> cols b' = cols b \<and> mines b' = mines b \<and> difficulty b' = difficulty b"
    and "flags b' = 0 \<and> openedCells b' = 0 \<and> \<not> isGameOver b' \<and> \<not> isGameWon b' \<and> endTime b' = None"
    and "startTime b' = (if returned (startGame rnd now b r c) then Some now else None)"
    and "gridOK b'"
    and "minesList b' = take (nat (mines b)) cs"
    and "cellAt b' r' c' = Some y \<Longrightarrow> pristine (state y) \<and> \<not> outOfRange b r' c'
           \<and> (isMine (state y) \<longleftrightarrow> (r', c') \<in> set (take (nat (mines b)) cs))"
    and "countCells isMine b' = min (nat (mines b)) (length cs)"
    and "\<not> (startGame rnd now b r c = Threw RangeError b')"
proof -
  define n where "n = nat (mines b)"
  define p where "p = placeLoop n cs (reset b)"
  define b1 where "b1 = boardOf p"
  define q where "q = countMinesFrom (minesList b1) b1"
  define b2 where "b2 = boardOf q"
  have dist: "distinct cs" unfolding cs_def by (rule cellListOf_distinct)
  have "set cs \<subseteq> set (coords b)"
    unfolding cs_def using cellListOf_inside [of rnd "reset b" r c] by simp
  then have ins: "\<forall>(r, c) \<in> set cs. \<not> outOfRange b r c" by (auto simp: set_coords)
  then have ex: "\<forall>(r, c) \<in> set cs. cellAt (reset b) r c \<noteq> None"
    by (auto simp: cellAt_reset)
  have nm: "\<forall>(r, c) \<in> set cs. case cellAt (reset b) r c of None \<Rightarrow> True
      | Some cell \<Rightarrow> \<not> isMine (state cell)"
    by (auto simp: cellAt_reset)
  note pm = placeLoop_mines [OF dist ex, of n, folded p_def, folded b1_def]
  have s1: "setupRel (reset b) b1" unfolding b1_def p_def by (rule placeLoop_setupRel)
  have g1: "gridOK b1" using s1 by (simp add: setupRel_gridOK)
  have ml1: "minesList b1 = take n cs" using pm(1) by simp
  have "countCells isMine (reset b) = 0"
    unfolding countCells_zero_iff by (auto simp: cellAt_reset split: if_splits)
  with pm(4) [OF nm] have cnt1: "countCells isMine b1 = min n (length cs)" by simp
  have cell1: "pristine (state y) \<and> \<not> outOfRange b r' c'
      \<and> (isMine (state y) \<longleftrightarrow> (r', c') \<in> set (take n cs))" if "cellAt b1 r' c' = Some y" for r' c' y
    using that pm(3) [of r' c']
    by (auto simp: cellAt_reset set_isMine_def pristine_def newCellState_def split: if_splits)
  have c2: "calcRel b1 b2" unfolding b2_def q_def by (rule countMinesFrom_calcRel)
  then have s2: "setupRel b1 b2" by (simp add: calcRel_def)
  have g2: "gridOK b2" using s2 g1 by (simp add: setupRel_gridOK)
  have r2: "returned q" unfolding q_def using g1 by (rule countMinesFrom_returns)
  have cell2: "pristine (state y) \<and> \<not> outOfRange b r' c'
      \<and> (isMine (state y) \<longleftrightarrow> (r', c') \<in> set (take n cs))" if y: "cellAt b2 r' c' = Some y" for r' c' y
  proof -
    from cellAt_shape [OF setupRel_fieldsD(11) [OF s2], of r' c'] y
    obtain x where x: "cellAt b1 r' c' = Some x" by auto
    from setupRel_cellAtD [OF s2 x] y have "pristine (state x) \<longrightarrow> pristine (state y)" by simp
    moreover from calcRel_D(4) [OF c2 x y] have "isMine (state y) = isMine (state x)" .
    ultimately show ?thesis using cell1 [OF x] by simp
  qed
  have sg: "startGame rnd now b r c = (case p of
        Threw e x \<Rightarrow> Threw e x
      | Returned x \<Rightarrow> (case countMinesFrom (minesList x) x of
            Threw e y \<Rightarrow> Threw e y
          | Returned y \<Rightarrow> Returned (y\<lparr> startTime := Some now \<rparr>)))"
    using inside by (simp add: startGame_def outOfRange_def placeMines_unfold cs_def p_def n_def
        calculateAdjacentMines_def split: outcome.splits)
  have f1: "rows b1 = rows b" "cols b1 = cols b" "mines b1 = mines b" "flags b1 = 0"
    "openedCells b1 = 0" "\<not> isGameOver b1" "\<not> isGameWon b1"
    "startTime b1 = None" "endTime b1 = None" "difficulty b1 = difficulty b"
    using setupRel_fieldsD(1-10) [OF s1] by simp_all
  have f2: "rows b2 = rows b" "cols b2 = cols b" "mines b2 = mines b" "flags b2 = 0"
    "openedCells b2 = 0" "\<not> isGameOver b2" "\<not> isGameWon b2"
    "startTime b2 = None" "endTime b2 = None" "difficulty b2 = difficulty b"
    using setupRel_fieldsD(1-10) [OF s2] f1 by simp_all
  have f3: "minesList b2 = take n cs" "countCells isMine b2 = min n (length cs)"
    using calcRel_D(2,3) [OF c2] ml1 cnt1 by simp_all
  have ret: "returned (startGame rnd now b r c) \<longleftrightarrow> n \<le> length cs"
  proof (cases p)
    case (Returned x)
    then have "x = b1" by (simp add: b1_def)
    with Returned r2 pm(2) show ?thesis unfolding sg q_def by (cases q) (simp_all add: q_def)
  next
    case (Threw e x)
    with pm(2) show ?thesis unfolding sg by simp
  qed
  have shape: "(returned (startGame rnd now b r c) \<and> b' = b2\<lparr> startTime := Some now \<rparr>)
      \<or> (\<not> returned (startGame rnd now b r c) \<and> b' = b1)"
  proof (cases p)
    case (Returned x)
    then have x: "x = b1" by (simp add: b1_def)
    from r2 obtain y where y: "q = Returned y" by (cases q) simp_all
    then have "y = b2" by (simp add: b2_def)
    with Returned x y show ?thesis unfolding b'_def sg by (simp add: q_def [symmetric])
  next
    case (Threw e x)
    then have "x = b1" by (simp add: b1_def)
    with Threw show ?thesis unfolding b'_def sg by simp
  qed
  show "returned (startGame rnd now b r c) \<longleftrightarrow> nat (mines b) \<le> length cs"
    using ret by (simp add: n_def)
  show "rows b' = rows b \<and> cols b' = cols b \<and> mines b' = mines b \<and> difficulty b' = difficulty b"
    using shape f1(1,2,3,10) f2(1,2,3,10) by (elim disjE conjE) simp_all
  show "flags b' = 0 \<and> openedCells b' = 0 \<and> \<not> isGameOver b' \<and> \<not> isGameWon b' \<and> endTime b' = None"
    using shape f1(4-9) f2(4-9) by (elim disjE conjE) simp_all
  show "startTime b' = (if returned (startGame rnd now b r c) then Some now else None)"
    using shape f1(8) by (elim disjE conjE) simp_all
  show "gridOK b'" using shape g1 g2 by (elim disjE conjE) simp_all
  show "minesList b' = take (nat (mines b)) cs"
    using shape ml1 f3(1) by (elim disjE conjE) (simp_all add: n_def)
  show "pristine (state y) \<and> \<not> outOfRange b r' c'
      \<and> (isMine (state y) \<longleftrightarrow> (r', c') \<in> set (take (nat (mines b)) cs))" if "cellAt b' r' c' = Some y"
  proof -
    from shape have "cellAt b' = cellAt b1 \<or> cellAt b' = cellAt b2"
      by (elim disjE conjE) simp_all
    with that cell1 [of r' c' y] cell2 [of r' c' y] show ?thesis
      by (elim disjE) (simp_all add: n_def)
  qed
  show "countCells isMine b' = min (nat (mines b)) (length cs)"
    using shape cnt1 f3(2) by (elim disjE conjE) (simp_all add: n_def)
  show "\<not> (startGame rnd now b r c = Threw RangeError b')"
  proof
    assume a: "startGame rnd now b r c = Threw RangeError b'"
    have no: "placeLoop m xs bb \<noteq> Threw RangeError bx" for m xs bb bx
      by (induction m xs bb rule: placeLoop.induct) (auto split: option.splits)
    show False
    proof (cases p)
      case (Returned x)
      then have "x = b1" by (simp add: b1_def)
      with Returned r2 a show ?thesis unfolding sg by (cases q) (simp_all add: q_def)
    next
      case (Threw e x)
      with a no [of n cs "reset b" x] show ?thesis unfolding sg p_def by simp
    qed
  qed
qed

section \<open>Invariants of a board in use\<close>

lemma grows_fieldsD:
  assumes "grows b b'"
  shows "rows b' = rows b" "cols b' = cols b" "mines b' = mines b" "minesList b' = minesList b"
    "flags b' = flags b" "startTime b' = startTime b" "difficulty b' = difficulty b"
  using assms unfolding grows_def by simp_all

lemma grows_coords: "grows b b' \<Longrightarrow> coords b' = coords b"
  by (simp add: coords_def grows_fieldsD)

lemma grows_target: "grows b b' \<Longrightarrow> target b' = target b"
  by (simp add: target_def grows_fieldsD)

lemma minesListed_alt: "minesListed b \<longleftrightarrow> (\<forall>(r, c) \<in> set (minesList b). mineAt b r c)"
  by (auto simp: minesListed_def mineAt_def split: option.splits)

lemma allMinesListed_alt:
  "allMinesListed b \<longleftrightarrow> (\<forall>(r, c) \<in> set (coords b). mineAt b r c \<longrightarrow> (r, c) \<in> set (minesList b))"
  by (auto simp: allMinesListed_def mineAt_def split: option.splits)

lemma grows_mineAt:
  assumes "grows b b'"
  shows "mineAt b' r c = mineAt b r c"
proof
  assume "mineAt b' r c"
  then obtain y where y: "cellAt b' r c = Some y" "isMine (state y)" by (auto simp: mineAt_def)
  from grows_cellAt_rev [OF assms y(1)] obtain x where "cellAt b r c = Some x" "sameCell x y" .
  with y(2) show "mineAt b r c" by (auto simp: mineAt_def sameCell_def)
next
  assume "mineAt b r c"
  then obtain x where x: "cellAt b r c = Some x" "isMine (state x)" by (auto simp: mineAt_def)
  from grows_cellAt [OF assms x(1)] obtain y where "cellAt b' r c = Some y" "sameCell x y" .
  with x(2) show "mineAt b' r c" by (auto simp: mineAt_def sameCell_def)
qed

lemma grows_minesListed: "grows b b' \<Longrightarrow> minesListed b' = minesListed b"
  by (simp add: minesListed_alt grows_fieldsD grows_mineAt)

lemma grows_allMinesListed: "grows b b' \<Longrightarrow> allMinesListed b' = allMinesListed b"
  by (simp add: allMinesListed_alt grows_fieldsD grows_coords grows_mineAt)

lemma sound_openCell: "sound b \<Longrightarrow> sound (boardOf (openCell now b r c))"
  using openCell_grows [of b now r c] openCell_count [of b now r c]
  by (simp add: sound_def grows_gridOK grows_minesListed grows_allMinesListed)

lemma toggleFlag_cases:
  obtains (same) "boardOf (toggleFlag b r c) = b"
  | (flip) cell where "cellAt b r c = Some cell" "\<not> isOpened (state cell)"
      "\<not> isGameOver b" "\<not> isGameWon b" "\<not> outOfRange b r c"
      "boardOf (toggleFlag b r c)
        = (updateState b r c (\<lambda>s. set_isFlagged (\<not> isFlagged s) s))
            \<lparr> flags := flags b + (if isFlagged (state cell) then -1 else 1) \<rparr>"
proof (cases "outOfRange b r c \<or> isGameOver b \<or> isGameWon b \<or> cellAt b r c = None
    \<or> (\<exists>cell. cellAt b r c = Some cell \<and> isOpened (state cell))")
  case True
  then have "boardOf (toggleFlag b r c) = b"
    by (auto simp: toggleFlag_def outOfRange_def split: option.splits)
  then show ?thesis by (rule same)
next
  case False
  then obtain cell where cell: "cellAt b r c = Some cell" "\<not> isOpened (state cell)"
    and act: "\<not> isGameOver b" "\<not> isGameWon b" "\<not> outOfRange b r c" by auto
  have "boardOf (toggleFlag b r c)
        = (updateState b r c (\<lambda>s. set_isFlagged (\<not> isFlagged s) s))
            \<lparr> flags := flags b + (if isFlagged (state cell) then -1 else 1) \<rparr>"
    using cell act
    by (simp add: toggleFlag_def outOfRange_def Let_def cellAt_updateState [OF cell(1)]
        set_isFlagged_def)
  with cell act show ?thesis by (rule flip)
qed

lemma flag_cell:
  assumes "cellAt b r c = Some cell"
  defines "b' \<equiv> updateState b r c (\<lambda>s. set_isFlagged (\<not> isFlagged s) s)"
  shows "gridOK b' = gridOK b" "minesListed b' = minesListed b"
    "allMinesListed b' = allMinesListed b" "safeOpened b' = safeOpened b"
    "countCells (\<lambda>s. isOpened s \<and> isMine s) b' = countCells (\<lambda>s. isOpened s \<and> isMine s) b"
    "countCells isMine b' = countCells isMine b"
proof -
  let ?f = "\<lambda>s. set_isFlagged (\<not> isFlagged s) s"
  have keep: "isMine (?f s) = isMine s" "isOpened (?f s) = isOpened s" for s
    by (simp_all add: set_isFlagged_def)
  show "gridOK b' = gridOK b" by (simp add: b'_def)
  have mine: "mineAt b' r' c' = mineAt b r' c'" for r' c'
    using assms(1) by (auto simp: mineAt_def b'_def cellAt_updateState [OF assms(1)] keep)
  have ml: "minesList b' = minesList b" "coords b' = coords b" by (simp_all add: b'_def coords_def)
  show "minesListed b' = minesListed b"
    by (simp add: minesListed_alt ml mine)
  show "allMinesListed b' = allMinesListed b"
    by (simp add: allMinesListed_alt ml mine)
  show "safeOpened b' = safeOpened b"
    using countCells_updateState [OF assms(1), of "\<lambda>s. isOpened s \<and> \<not> isMine s" ?f]
    by (simp add: safeOpened_def b'_def keep)
  show "countCells (\<lambda>s. isOpened s \<and> isMine s) b' = countCells (\<lambda>s. isOpened s \<and> isMine s) b"
    using countCells_updateState [OF assms(1), of "\<lambda>s. isOpened s \<and> isMine s" ?f]
    by (simp add: b'_def keep)
  show "countCells isMine b' = countCells isMine b"
    using countCells_updateState [OF assms(1), of isMine ?f] by (simp add: b'_def keep)
qed

lemma mineAt_flags [simp]: "mineAt (b\<lparr> flags := n \<rparr>) = mineAt b"
  by (simp add: mineAt_def fun_eq_iff)

lemma minesListed_flags [simp]: "minesListed (b\<lparr> flags := n \<rparr>) = minesListed b"
  by (simp add: minesListed_alt)

lemma allMinesListed_flags [simp]: "allMinesListed (b\<lparr> flags := n \<rparr>) = allMinesListed b"
  by (simp add: allMinesListed_alt coords_def)

lemma sound_toggleFlag:
  assumes "sound b"
  shows "sound (boardOf (toggleFlag b r c))"
proof (rule toggleFlag_cases [of b r c])
  assume "boardOf (toggleFlag b r c) = b"
  with assms show ?thesis by simp
next
  fix cell
  assume "cellAt b r c = Some cell"
    and "boardOf (toggleFlag b r c)
        = (updateState b r c (\<lambda>s. set_isFlagged (\<not> isFlagged s) s))
            \<lparr> flags := flags b + (if isFlagged (state cell) then -1 else 1) \<rparr>"
  with assms show ?thesis by (simp add: sound_def flag_cell)
qed

lemma sound_startGame:
  assumes "sound b"
  shows "sound (boardOf (startGame rnd now b r c))"
proof (cases "outOfRange b r c")
  case True
  with assms show ?thesis by (simp add: startGame_out)
next
  case False
  let ?b = "boardOf (startGame rnd now b r c)"
  let ?ms = "take (nat (mines b)) (cellListOf rnd (reset b) r c)"
  note res = startGame_result [OF False, of rnd now]
  have cell: "pristine (state y) \<and> \<not> outOfRange b r' c' \<and> (isMine (state y) \<longleftrightarrow> (r', c') \<in> set ?ms)"
    if "cellAt ?b r' c' = Some y" for r' c' y
    using res(7) [OF that] .
  have oor: "outOfRange ?b = outOfRange b" using res(2) by (simp add: outOfRange_def fun_eq_iff)
  have "set ?ms \<subseteq> set (coords b)"
    using cellListOf_inside [of rnd "reset b" r c] by (auto dest: in_set_takeD)
  then have ex: "\<exists>y. cellAt ?b r' c' = Some y" if "(r', c') \<in> set ?ms" for r' c'
    using that gridOK_cellAt [OF res(5), of r' c'] oor by (auto simp: set_coords)
  have 1: "minesListed ?b"
    unfolding minesListed_alt res(6) mineAt_def using ex cell by fastforce
  have 2: "allMinesListed ?b"
    unfolding allMinesListed_alt res(6) mineAt_def using cell by auto
  have 3: "safeOpened ?b = 0"
    unfolding safeOpened_def countCells_zero_iff using cell by (auto simp: pristine_def)
  from 1 2 3 res(3,5) show ?thesis by (simp add: sound_def)
qed

lemma sound_exec: "sound b \<Longrightarrow> sound (exec x b)"
  by (cases x) (simp_all add: sound_reset sound_startGame sound_openCell sound_toggleFlag)

lemma sound_run: "sound b \<Longrightarrow> sound (run xs b)"
  by (induction xs arbitrary: b) (simp_all add: sound_exec)

section \<open>Closed mines and winning\<close>

lemma floodRel_refl [simp]: "floodRel b b"
  by (simp add: floodRel_def)

lemma floodRel_trans: "floodRel b1 b2 \<Longrightarrow> floodRel b2 b3 \<Longrightarrow> floodRel b1 b3"
  unfolding floodRel_def by auto

lemma won_update_same: "isGameWon b \<Longrightarrow> b\<lparr> isGameWon := True \<rparr> = b"
  by (cases b) simp

lemma floodRel_openStep:
  assumes "\<not> isGameWon b" "cellAt b r c = Some cell" "\<not> isMine (state cell)"
  shows "floodRel b (openStep b r c)"
  using countCells_updateState [OF assms(2), of "\<lambda>s. isOpened s \<and> isMine s" "set_isOpened True"] assms
  by (simp add: floodRel_def openStep_def set_isOpened_def)

lemma floodRel_win: "openedCells b = rows b * cols b - mines b \<Longrightarrow> floodRel b (b\<lparr> isGameWon := True \<rparr>)"
  by (simp add: floodRel_def target_def won_update_same)

lemma flood_floodRel:
  "floodRel b (boardOf (openAdjacentCells now b r c))"
  "floodRel b (boardOf (openAround ds now b r c))"
proof -
  show "floodRel b (boardOf (openAdjacentCells now b r c))"
    by (rule flood_closure(2) [where R = floodRel])
      (rule floodRel_refl, erule (1) floodRel_trans, erule (1) floodRel_openStep, assumption,
        erule floodRel_win)
  show "floodRel b (boardOf (openAround ds now b r c))"
    by (rule flood_closure(3) [where R = floodRel])
      (rule floodRel_refl, erule (1) floodRel_trans, erule (1) floodRel_openStep, assumption,
        erule floodRel_win)
qed

lemma openMinesFrom_fields:
  "openedCells (boardOf (openMinesFrom ms b)) = openedCells b
   \<and> isGameOver (boardOf (openMinesFrom ms b)) = isGameOver b
   \<and> isGameWon (boardOf (openMinesFrom ms b)) = isGameWon b
   \<and> endTime (boardOf (openMinesFrom ms b)) = endTime b"
proof (induction ms arbitrary: b)
  case Nil
  then show ?case by simp
next
  case (Cons m ms)
  obtain r c where m: "m = (r, c)" by (cases m)
  from Cons.IH [of "updateState b r c (set_isOpened True)"] m show ?case
    by (cases "cellAt b r c") simp_all
qed

text \<open>The three ways a call of \<open>openCell\<close> can go.\<close>

lemma openCell_cases:
  obtains (noop) "boardOf (openCell now b r c) = b"
  | (mine) cell where "cellAt b r c = Some cell" "\<not> isOpened (state cell)" "isMine (state cell)"
      "\<not> isGameOver b" "\<not> isGameWon b" "\<not> outOfRange b r c"
      "openCell now b r c = openMinesFrom (minesList b) (b\<lparr> isGameOver := True, endTime := Some now \<rparr>)"
  | (safe) cell where "cellAt b r c = Some cell" "\<not> isOpened (state cell)" "\<not> isMine (state cell)"
      "\<not> isGameOver b" "\<not> isGameWon b" "\<not> outOfRange b r c"
      "openCell now b r c =
         (case (if adjacentMines (state cell) = 0
                 then openAdjacentCells now (openStep b r c) r c
                 else Returned (openStep b r c)) of
            Threw e b2 \<Rightarrow> Threw e b2
          | Returned b2 \<Rightarrow>
              if openedCells b2 = rows b2 * cols b2 - mines b2
              then Returned (b2\<lparr> isGameWon := True \<rparr>)
              else Returned b2)"
proof (cases "isGameOver b \<or> isGameWon b \<or> outOfRange b r c \<or> cellAt b r c = None
    \<or> (\<exists>cell. cellAt b r c = Some cell \<and> isOpened (state cell))")
  case True
  then show ?thesis by (intro noop openCell_noop)
next
  case False
  then obtain cell where cell: "cellAt b r c = Some cell" "\<not> isOpened (state cell)"
    and act: "\<not> isGameOver b" "\<not> isGameWon b" "\<not> outOfRange b r c" by auto
  show ?thesis
  proof (cases "isMine (state cell)")
    case True
    with cell act show ?thesis
      by (intro mine [of cell]) (simp_all add: openCell_mine openAllMines_def)
  next
    case False
    with cell act show ?thesis
      by (intro safe [of cell] openCell_safe)
  qed
qed

lemma minesClosed_openCell:
  assumes "minesClosed b"
  shows "minesClosed (boardOf (openCell now b r c))"
proof (rule openCell_cases [of now b r c])
  assume "boardOf (openCell now b r c) = b"
  with assms show ?thesis by simp
next
  fix cell
  assume "openCell now b r c
    = openMinesFrom (minesList b) (b\<lparr> isGameOver := True, endTime := Some now \<rparr>)"
  then show ?thesis
    using openMinesFrom_fields [of "minesList b" "b\<lparr> isGameOver := True, endTime := Some now \<rparr>"]
    by (simp add: minesClosed_def)
next
  fix cell :: Cell
  let ?f = "if adjacentMines (state cell) = 0
                 then openAdjacentCells now (openStep b r c) r c
                 else Returned (openStep b r c)"
  assume cell: "cellAt b r c = Some cell" "\<not> isMine (state cell)" "\<not> isGameWon b"
    and eq: "openCell now b r c = (case ?f of
            Threw e b2 \<Rightarrow> Threw e b2
          | Returned b2 \<Rightarrow>
              if openedCells b2 = rows b2 * cols b2 - mines b2
              then Returned (b2\<lparr> isGameWon := True \<rparr>)
              else Returned b2)"
  have "floodRel (openStep b r c) (boardOf ?f)" by (simp add: flood_floodRel)
  with floodRel_openStep [OF cell(3,1,2)] have "floodRel b (boardOf ?f)" by (rule floodRel_trans)
  then have "minesClosed (boardOf ?f)" using assms by (simp add: floodRel_def minesClosed_def)
  then show ?thesis unfolding eq by (cases ?f) (simp_all add: minesClosed_def split: if_splits)
qed

lemma minesClosed_toggleFlag:
  assumes "minesClosed b"
  shows "minesClosed (boardOf (toggleFlag b r c))"
proof (rule toggleFlag_cases [of b r c])
  assume "boardOf (toggleFlag b r c) = b"
  with assms show ?thesis by simp
next
  fix cell
  assume "cellAt b r c = Some cell"
    and "boardOf (toggleFlag b r c)
        = (updateState b r c (\<lambda>s. set_isFlagged (\<not> isFlagged s) s))
            \<lparr> flags := flags b + (if isFlagged (state cell) then -1 else 1) \<rparr>"
  with assms show ?thesis by (simp add: minesClosed_def flag_cell)
qed

lemma minesClosed_reset: "minesClosed (reset b)"
  unfolding minesClosed_def countCells_zero_iff
  by (auto simp: cellAt_reset newCellState_def split: if_splits)

lemma minesClosed_startGame:
  assumes "minesClosed b"
  shows "minesClosed (boardOf (startGame rnd now b r c))"
proof (cases "outOfRange b r c")
  case True
  with assms show ?thesis by (simp add: startGame_out)
next
  case False
  have "countCells (\<lambda>s. isOpened s \<and> isMine s) (boardOf (startGame rnd now b r c)) = 0"
    unfolding countCells_zero_iff using startGame_result(7) [OF False, of rnd now]
    by (auto simp: pristine_def)
  then show ?thesis by (simp add: minesClosed_def)
qed

subsection \<open>Winning\<close>

lemma target_fields [simp]:
  "target (b\<lparr> isGameWon := w \<rparr>) = target b"
  "target (b\<lparr> isGameOver := g \<rparr>) = target b"
  "target (b\<lparr> endTime := t \<rparr>) = target b"
  "target (b\<lparr> flags := n \<rparr>) = target b"
  "target (openStep b r c) = target b"
  "target (updateState b r c f) = target b"
  "target (reset b) = target b"
  by (simp_all add: target_def)

lemma winInv_openCell:
  assumes "winInv b" and "gridOK b"
  shows "winInv (boardOf (openCell now b r c))"
proof (rule openCell_cases [of now b r c])
  assume "boardOf (openCell now b r c) = b"
  with assms show ?thesis by simp
next
  fix cell
  assume act: "\<not> isGameWon b"
    and eq: "openCell now b r c
    = openMinesFrom (minesList b) (b\<lparr> isGameOver := True, endTime := Some now \<rparr>)"
  define b0 where "b0 = b\<lparr> isGameOver := True, endTime := Some now \<rparr>"
  define bm where "bm = boardOf (openMinesFrom (minesList b) b0)"
  have "grows b0 bm" unfolding bm_def by (rule openMinesFrom_grows)
  then have "target bm = target b0" by (rule grows_target)
  then have t: "target bm = target b" by (simp add: b0_def)
  have "openedCells bm = openedCells b0" "isGameOver bm = isGameOver b0" "isGameWon bm = isGameWon b0"
    using openMinesFrom_fields [of "minesList b" b0] by (simp_all add: bm_def)
  then have f: "openedCells bm = openedCells b" "isGameOver bm" "isGameWon bm = isGameWon b"
    by (simp_all add: b0_def)
  have "boardOf (openCell now b r c) = bm" by (simp add: eq bm_def b0_def)
  with t f act assms(1) show ?thesis by (simp add: winInv_def)
next
  fix cell :: Cell
  let ?f = "if adjacentMines (state cell) = 0
                 then openAdjacentCells now (openStep b r c) r c
                 else Returned (openStep b r c)"
  assume cell: "cellAt b r c = Some cell" "\<not> isMine (state cell)" "\<not> isGameWon b" "\<not> isGameOver b"
    and eq: "openCell now b r c = (case ?f of
            Threw e b2 \<Rightarrow> Threw e b2
          | Returned b2 \<Rightarrow>
              if openedCells b2 = rows b2 * cols b2 - mines b2
              then Returned (b2\<lparr> isGameWon := True \<rparr>)
              else Returned b2)"
  have "returned ?f" using assms(2) by (simp add: flood_returns(2))
  then obtain b2 where b2: "?f = Returned b2" by (cases ?f) simp_all
  have "floodRel (openStep b r c) (boardOf ?f)" by (simp add: flood_floodRel)
  with floodRel_openStep [OF cell(3,1,2)] have "floodRel b (boardOf ?f)" by (rule floodRel_trans)
  with b2 cell have "\<not> isGameOver b2" "isGameWon b2 \<longrightarrow> openedCells b2 = target b2"
    by (simp_all add: floodRel_def)
  then show ?thesis unfolding eq b2 by (auto simp: winInv_def target_def)
qed

lemma winInv_toggleFlag:
  assumes "winInv b"
  shows "winInv (boardOf (toggleFlag b r c))"
proof (rule toggleFlag_cases [of b r c])
  assume "boardOf (toggleFlag b r c) = b"
  with assms show ?thesis by simp
next
  fix cell
  assume "boardOf (toggleFlag b r c)
        = (updateState b r c (\<lambda>s. set_isFlagged (\<not> isFlagged s) s))
            \<lparr> flags := flags b + (if isFlagged (state cell) then -1 else 1) \<rparr>"
  with assms show ?thesis by (simp add: winInv_def)
qed

lemma winInv_reset: "target b \<noteq> 0 \<Longrightarrow> winInv (reset b)"
  by (simp add: winInv_def)

lemma winInv_startGame:
  assumes "winInv b" and "target b \<noteq> 0"
  shows "winInv (boardOf (startGame rnd now b r c))"
proof (cases "outOfRange b r c")
  case True
  with assms show ?thesis by (simp add: startGame_out)
next
  case False
  from startGame_result(2,3) [OF False, of rnd now] assms(2) show ?thesis
    by (simp add: winInv_def target_def)
qed

lemma target_exec [simp]: "target (exec x b) = target b"
proof (cases x)
  case Reset
  then show ?thesis by simp
next
  case (StartGame rnd now r c)
  show ?thesis
  proof (cases "outOfRange b r c")
    case True
    with StartGame show ?thesis by (simp add: startGame_out)
  next
    case False
    from startGame_result(2) [OF False, of rnd now] StartGame show ?thesis
      by (simp add: target_def)
  qed
next
  case (OpenCell now r c)
  with openCell_grows [of b now r c] show ?thesis by (simp add: grows_target)
next
  case (ToggleFlag r c)
  show ?thesis by (rule toggleFlag_cases [of b r c]) (simp_all add: ToggleFlag)
qed

lemma target_run [simp]: "target (run xs b) = target b"
  by (induction xs arbitrary: b) simp_all

lemma minesClosed_run: "minesClosed b \<Longrightarrow> minesClosed (run xs b)"
proof (induction xs arbitrary: b)
  case Nil
  then show ?case by simp
next
  case (Cons x xs)
  have "minesClosed (exec x b)"
    using Cons.prems
    by (cases x) (simp_all add: minesClosed_reset minesClosed_startGame minesClosed_openCell
        minesClosed_toggleFlag)
  with Cons.IH show ?case by simp
qed

lemma winInv_run:
  assumes "winInv b" "sound b" "target b \<noteq> 0"
  shows "winInv (run xs b)"
  using assms
proof (induction xs arbitrary: b)
  case Nil
  then show ?case by simp
next
  case (Cons x xs)
  have "winInv (exec x b)"
    using Cons.prems
    by (cases x) (simp_all add: winInv_reset winInv_startGame winInv_openCell winInv_toggleFlag
        sound_def)
  with Cons.IH [of "exec x b"] Cons.prems show ?case by (simp add: sound_exec)
qed

section \<open>Lemmas for the claims\<close>

lemma getAdjacentCells_reset [simp]: "getAdjacentCells (reset b) r c = getAdjacentCells b r c"
  by (simp add: getAdjacentCells_def cong: if_cong)

lemma startGame_room:
  assumes "\<not> outOfRange b r c"
    and "mines b \<le> rows b * cols b - 1 - int (length (getAdjacentCells b r c))"
  shows "returned (startGame rnd now b r c)"
proof -
  let ?cs = "cellListOf rnd (reset b) r c"
  let ?L = "length (getAdjacentCells b r c)"
  from assms(1) have pos: "0 \<le> rows b" "0 \<le> cols b" by (auto simp: outOfRange_def)
  then have area: "int (nat (rows b) * nat (cols b)) = rows b * cols b" by simp
  from cellListOf_length [of "reset b" r c rnd]
  have len: "nat (rows b) * nat (cols b) - 1 - ?L \<le> length ?cs" by simp
  have "nat (mines b) \<le> nat (rows b) * nat (cols b) - 1 - ?L"
    using assms(2) area by linarith
  with len have "nat (mines b) \<le> length ?cs" by linarith
  with startGame_result(1) [OF assms(1), of rnd now] show ?thesis by simp
qed

lemma startGame_safe_start:
  assumes "\<not> outOfRange b r c"
  shows "\<exists>cell. cellAt (boardOf (startGame rnd now b r c)) r c = Some cell \<and> \<not> isMine (state cell)"
proof -
  let ?b = "boardOf (startGame rnd now b r c)"
  note res = startGame_result [OF assms, of rnd now]
  have "\<not> outOfRange ?b r c" using res(2) assms by (simp add: outOfRange_def)
  from gridOK_cellAt [OF res(5) this] obtain y where y: "cellAt ?b r c = Some y" ..
  have "(r, c) \<notin> set (cellListOf rnd (reset b) r c)" by (rule cellListOf_start)
  then have "(r, c) \<notin> set (take (nat (mines b)) (cellListOf rnd (reset b) r c))"
    by (meson in_set_takeD)
  with res(7) [OF y] have "\<not> isMine (state y)" by simp
  with y show ?thesis by blast
qed

lemma startGame_mine_count:
  assumes "\<not> outOfRange b r c" and "0 \<le> mines b" and "returned (startGame rnd now b r c)"
  shows "int (countCells isMine (boardOf (startGame rnd now b r c))) = mines b"
proof -
  note res = startGame_result [OF assms(1), of rnd now]
  from res(1) assms(3) have "nat (mines b) \<le> length (cellListOf rnd (reset b) r c)" by simp
  with res(8) assms(2) show ?thesis by simp
qed

lemma countCells_split:
  "countCells P b = countCells (\<lambda>s. P s \<and> \<not> Q s) b + countCells (\<lambda>s. P s \<and> Q s) b"
proof -
  have "length (filter (\<lambda>x. P (state x)) xs)
      = length (filter (\<lambda>x. P (state x) \<and> \<not> Q (state x)) xs)
        + length (filter (\<lambda>x. P (state x) \<and> Q (state x)) xs)" for xs :: "Cell list"
    by (induction xs) auto
  then show ?thesis by (simp add: countCells_def)
qed

lemma openMinesFrom_opens:
  assumes "\<forall>(r, c) \<in> set ms. cellAt b r c \<noteq> None" and "(r, c) \<in> set ms"
  shows "\<exists>cell. cellAt (boardOf (openMinesFrom ms b)) r c = Some cell \<and> isOpened (state cell)"
  using assms
proof (induction ms arbitrary: b)
  case Nil
  then show ?case by simp
next
  case (Cons m ms)
  obtain r0 c0 where m: "m = (r0, c0)" by (cases m)
  with Cons.prems(1) obtain cell where cell: "cellAt b r0 c0 = Some cell" by auto
  let ?b = "updateState b r0 c0 (set_isOpened True)"
  have ex: "\<forall>(r, c) \<in> set ms. cellAt ?b r c \<noteq> None"
    using Cons.prems(1) by (auto simp: cellAt_updateState [OF cell])
  have eq: "openMinesFrom (m # ms) b = openMinesFrom ms ?b" using m cell by simp
  show ?case
  proof (cases "(r, c) \<in> set ms")
    case True
    from Cons.IH [OF ex True] show ?thesis by (simp add: eq)
  next
    case False
    with Cons.prems(2) m have rc: "r = r0" "c = c0" by simp_all
    have "cellAt ?b r c = Some (cell\<lparr> state := set_isOpened True (state cell) \<rparr>)"
      by (simp add: cellAt_updateState [OF cell] rc)
    from grows_cellAt [OF openMinesFrom_grows this, of ms] obtain y
      where "cellAt (boardOf (openMinesFrom ms ?b)) r c = Some y"
        "sameCell (cell\<lparr> state := set_isOpened True (state cell) \<rparr>) y" .
    then show ?thesis by (auto simp: eq sameCell_def set_isOpened_def)
  qed
qed

lemma sound_reachable: "sound (run ops (newBoard d))"
  by (intro sound_run sound_newBoard)

lemma minesClosed_reachable: "minesClosed (run ops (newBoard d))"
  unfolding newBoard_def by (intro minesClosed_run minesClosed_reset)

subsection \<open>The number of mines during play\<close>

text \<open>
  The number of mines on the board, which \<open>startGame\<close> sets to the configured number
  when it returns, is kept by \<open>openCell\<close> and \<open>toggleFlag\<close>.
\<close>

lemma openMinesFrom_mine_count:
  "countCells isMine (boardOf (openMinesFrom ms b)) = countCells isMine b"
proof (induction ms arbitrary: b)
  case Nil
  then show ?case by simp
next
  case (Cons m ms)
  obtain r c where m: "m = (r, c)" by (cases m)
  show ?case
  proof (cases "cellAt b r c")
    case None
    with m show ?thesis by simp
  next
    case (Some cell)
    have "countCells isMine (updateState b r c (set_isOpened True)) = countCells isMine b"
      using countCells_updateState [OF Some, of isMine "set_isOpened True"]
      by (simp add: set_isOpened_def)
    with Cons.IH [of "updateState b r c (set_isOpened True)"] m Some show ?thesis by simp
  qed
qed

lemma flood_mine_count:
  "countCells isMine (boardOf (openAdjacentCells now b r c)) = countCells isMine b"
proof -
  let ?R = "\<lambda>b b'. countCells isMine b' = countCells isMine b"
  have opn: "?R b (openStep b r c)" if "cellAt b r c = Some cell" for b r c cell
    using countCells_updateState [OF that, of isMine "set_isOpened True"]
    by (simp add: openStep_def set_isOpened_def)
  have win: "?R b (b\<lparr> isGameWon := True \<rparr>)" for b by simp
  show ?thesis
    by (rule flood_closure(2) [where R = ?R]) (simp, simp, erule opn, rule win)
qed

lemma openCell_mine_count:
  "countCells isMine (boardOf (openCell now b r c)) = countCells isMine b"
proof (rule openCell_cases [of now b r c])
  assume "boardOf (openCell now b r c) = b"
  then show ?thesis by simp
next
  assume "openCell now b r c
    = openMinesFrom (minesList b) (b\<lparr> isGameOver := True, endTime := Some now \<rparr>)"
  then show ?thesis by (simp add: openMinesFrom_mine_count)
next
  fix cell :: Cell
  let ?f = "if adjacentMines (state cell) = 0
                 then openAdjacentCells now (openStep b r c) r c
                 else Returned (openStep b r c)"
  assume cell: "cellAt b r c = Some cell"
    and eq: "openCell now b r c = (case ?f of
            Threw e b2 \<Rightarrow> Threw e b2
          | Returned b2 \<Rightarrow>
              if openedCells b2 = rows b2 * cols b2 - mines b2
              then Returned (b2\<lparr> isGameWon := True \<rparr>)
              else Returned b2)"
  have "countCells isMine (openStep b r c) = countCells isMine b"
    using countCells_updateState [OF cell, of isMine "set_isOpened True"]
    by (simp add: openStep_def set_isOpened_def)
  then have "countCells isMine (boardOf ?f) = countCells isMine b"
    by (simp add: flood_mine_count)
  then show ?thesis unfolding eq by (cases ?f) (simp_all split: if_splits)
qed

lemma toggleFlag_mine_count:
  "countCells isMine (boardOf (toggleFlag b r c)) = countCells isMine b"
proof (rule toggleFlag_cases [of b r c])
  assume "boardOf (toggleFlag b r c) = b"
  then show ?thesis by simp
next
  fix cell
  assume "cellAt b r c = Some cell"
    and "boardOf (toggleFlag b r c)
        = (updateState b r c (\<lambda>s. set_isFlagged (\<not> isFlagged s) s))
            \<lparr> flags := flags b + (if isFlagged (state cell) then -1 else 1) \<rparr>"
  then show ?thesis by (simp add: flag_cell)
qed

subsection \<open>The cells after the mines are revealed\<close>

text \<open>
  The cells after \<open>openAllMines\<close>: the listed ones are opened, the others are as they
  were.
\<close>

lemma openMinesFrom_cells:
  assumes "\<forall>(r, c) \<in> set ms. cellAt b r c \<noteq> None"
  shows "cellAt (boardOf (openMinesFrom ms b)) r c
    = (if (r, c) \<in> set ms
       then map_option (\<lambda>x. x\<lparr> state := set_isOpened True (state x) \<rparr>) (cellAt b r c)
       else cellAt b r c)"
  using assms
proof (induction ms arbitrary: b)
  case Nil
  then show ?case by simp
next
  case (Cons m ms)
  obtain r0 c0 where m: "m = (r0, c0)" by (cases m)
  with Cons.prems obtain cell where cell: "cellAt b r0 c0 = Some cell" by auto
  let ?b = "updateState b r0 c0 (set_isOpened True)"
  have ex: "\<forall>(r, c) \<in> set ms. cellAt ?b r c \<noteq> None"
    using Cons.prems by (auto simp: cellAt_updateState [OF cell])
  have eq: "openMinesFrom (m # ms) b = openMinesFrom ms ?b" using m cell by simp
  have idem: "set_isOpened True (set_isOpened True s) = set_isOpened True s" for s
    by (simp add: set_isOpened_def)
  show ?case
    unfolding eq Cons.IH [OF ex] using cell
    by (simp add: m cellAt_updateState [OF cell] idem)
qed

section \<open>The claims about starting a game\<close>

text \<open>
  C1, as stated: for every valid configuration (at least one row and one column, and
  fewer mines than cells) and every start cell of the board, after \<open>startGame\<close> the
  number of mined cells is the configured number. It fails on a 2 by 2 board with 3
  mines: the start cell and at least one neighbour are excluded, at most 2 cells are
  left, and \<open>startGame\<close> throws after mining them.
\<close>

theorem C1_mine_count_counterexample:
  "1 \<le> Difficulty.rows crowded \<and> 1 \<le> Difficulty.cols crowded \<and> 0 \<le> Difficulty.mines crowded
   \<and> Difficulty.mines crowded < Difficulty.rows crowded * Difficulty.cols crowded
   \<and> \<not> outOfRange (newBoard crowded) 0 0
   \<and> int (countCells isMine (boardOf (startGame zeroOracle 0 (newBoard crowded) 0 0)))
       \<noteq> mines (newBoard crowded)"
  by code_simp

text \<open>
  C1, amended: for every board with a number of mines that is not negative and every
  start cell of the board, whenever \<open>startGame\<close> returns, the start cell is not a
  mine and the number of mined cells is the configured number.
\<close>

theorem C1_start_safe_mines_counted:
  assumes "\<not> outOfRange b r c" and "0 \<le> mines b" and "returned (startGame rnd now b r c)"
  shows "(\<exists>cell. cellAt (boardOf (startGame rnd now b r c)) r c = Some cell \<and> \<not> isMine (state cell))
    \<and> int (countCells isMine (boardOf (startGame rnd now b r c))) = mines b"
  using startGame_safe_start [OF assms(1)] startGame_mine_count [OF assms] by blast

theorem C1_start_safe_mines_counted_witness:
  "\<not> outOfRange (newBoard small) 0 0 \<and> 0 \<le> mines (newBoard small)
   \<and> returned (startGame zeroOracle 5 (newBoard small) 0 0)
   \<and> (\<exists>cell. cellAt (boardOf (startGame zeroOracle 5 (newBoard small) 0 0)) 0 0 = Some cell
         \<and> \<not> isMine (state cell))
   \<and> int (countCells isMine (boardOf (startGame zeroOracle 5 (newBoard small) 0 0)))
       = mines (newBoard small)"
proof -
  have h1: "\<not> outOfRange (newBoard small) 0 0" by code_simp
  have h2: "0 \<le> mines (newBoard small)" by code_simp
  have h3: "returned (startGame zeroOracle 5 (newBoard small) 0 0)" by code_simp
  from C1_start_safe_mines_counted [OF h1 h2 h3] h1 h2 h3 show ?thesis by blast
qed

text \<open>
  C6, as stated: for every valid configuration, mine placement on a cell of the board
  never errors. It fails on a 2 by 2 board with 3 mines, where \<open>startGame(0, 0)\<close>
  throws a TypeError.
\<close>

theorem C6_placement_fails_counterexample:
  "1 \<le> Difficulty.rows crowded \<and> 1 \<le> Difficulty.cols crowded \<and> 0 \<le> Difficulty.mines crowded
   \<and> Difficulty.mines crowded < Difficulty.rows crowded * Difficulty.cols crowded
   \<and> \<not> outOfRange (newBoard crowded) 0 0
   \<and> startGame zeroOracle 0 (newBoard crowded) 0 0
       = Threw TypeError (boardOf (startGame zeroOracle 0 (newBoard crowded) 0 0))"
  by code_simp

text \<open>
  C6, amended: mine placement during \<open>startGame\<close> on a cell of the board returns
  whenever the number of mines is at most the number of cells minus one minus the
  number of neighbours of the start cell on the board, whatever the random draws.
\<close>

theorem C6_placement_succeeds:
  assumes "\<not> outOfRange b r c"
    and "mines b \<le> rows b * cols b - 1 - int (length (getAdjacentCells b r c))"
  shows "returned (startGame rnd now b r c)"
  using assms by (rule startGame_room)

theorem C6_placement_succeeds_witness:
  "\<not> outOfRange (newBoard BEGINNER) 3 4
   \<and> mines (newBoard BEGINNER) \<le> rows (newBoard BEGINNER) * cols (newBoard BEGINNER) - 1
        - int (length (getAdjacentCells (newBoard BEGINNER) 3 4))
   \<and> returned (startGame oneOracle 0 (newBoard BEGINNER) 3 4)"
proof -
  have h1: "\<not> outOfRange (newBoard BEGINNER) 3 4" by code_simp
  have h2: "mines (newBoard BEGINNER) \<le> rows (newBoard BEGINNER) * cols (newBoard BEGINNER) - 1
        - int (length (getAdjacentCells (newBoard BEGINNER) 3 4))" by code_simp
  from C6_placement_succeeds [OF h1 h2] h1 h2 show ?thesis by blast
qed

text \<open>
  C10, as stated: in a terminal state, \<open>startGame\<close> on a cell of the board succeeds.
  It fails on a 1 by 3 board with 1 mine: after a won game, \<open>startGame(0, 1)\<close> can
  exclude all three cells and then throws.
\<close>

theorem C10_restart_fails_counterexample:
  "isGameWon wonStrip \<and> \<not> outOfRange wonStrip 0 1 \<and> 0 \<le> mines wonStrip
   \<and> mines wonStrip < rows wonStrip * cols wonStrip
   \<and> \<not> returned (startGame oneOracle 2 wonStrip 0 1)"
  by code_simp

text \<open>
  C10, amended: in every state, terminal or not, \<open>startGame\<close> on a cell of the board
  returns and leaves a fresh active game, provided the number of mines is not negative
  and at most the number of cells minus one minus the number of neighbours of the start
  cell: the game is neither over nor won, both counters are zero, every cell is closed,
  unflagged and shows the unopened marker, the configured number of cells are mines,
  and the timer is started anew.
\<close>

theorem C10_restart_fresh:
  assumes "\<not> outOfRange b r c" and "0 \<le> mines b"
    and "mines b \<le> rows b * cols b - 1 - int (length (getAdjacentCells b r c))"
  shows "returned (startGame rnd now b r c)
    \<and> \<not> isGameOver (boardOf (startGame rnd now b r c))
    \<and> \<not> isGameWon (boardOf (startGame rnd now b r c))
    \<and> flags (boardOf (startGame rnd now b r c)) = 0
    \<and> openedCells (boardOf (startGame rnd now b r c)) = 0
    \<and> countCells (\<lambda>s. isOpened s \<or> isFlagged s \<or> currentState s \<noteq> UNOPENED)
          (boardOf (startGame rnd now b r c)) = 0
    \<and> int (countCells isMine (boardOf (startGame rnd now b r c))) = mines b
    \<and> startTime (boardOf (startGame rnd now b r c)) = Some now
    \<and> endTime (boardOf (startGame rnd now b r c)) = None"
proof -
  note res = startGame_result [OF assms(1), of rnd now]
  have ret: "returned (startGame rnd now b r c)" using assms(1,3) by (rule startGame_room)
  have "countCells (\<lambda>s. isOpened s \<or> isFlagged s \<or> currentState s \<noteq> UNOPENED)
          (boardOf (startGame rnd now b r c)) = 0"
    unfolding countCells_zero_iff using res(7) by (auto simp: pristine_def)
  with ret res(3,4) startGame_mine_count [OF assms(1,2) ret] show ?thesis by simp
qed

theorem C10_restart_fresh_witness:
  "isGameOver lostSmall \<and> \<not> outOfRange lostSmall 0 0 \<and> 0 \<le> mines lostSmall
   \<and> mines lostSmall \<le> rows lostSmall * cols lostSmall - 1
        - int (length (getAdjacentCells lostSmall 0 0))
   \<and> returned (startGame oneOracle 9 lostSmall 0 0)
   \<and> \<not> isGameOver (boardOf (startGame oneOracle 9 lostSmall 0 0))
   \<and> startTime (boardOf (startGame oneOracle 9 lostSmall 0 0)) = Some 9"
proof -
  have h0: "isGameOver lostSmall" by code_simp
  have h1: "\<not> outOfRange lostSmall 0 0" by code_simp
  have h2: "0 \<le> mines lostSmall" by code_simp
  have h3: "mines lostSmall \<le> rows lostSmall * cols lostSmall - 1
        - int (length (getAdjacentCells lostSmall 0 0))" by code_simp
  from C10_restart_fresh [OF h1 h2 h3, of oneOracle 9] h0 h1 h2 h3 show ?thesis by blast
qed

section \<open>The claims about errors and flags\<close>

text \<open>
  C5, as stated: in every state, terminal ones included, \<open>openCell\<close> with a
  coordinate outside the board raises the range error. It fails after a won game:
  \<open>openCell(-1, 0)\<close> returns, because the check of the game's end comes first.
\<close>

theorem C5_terminal_openCell_counterexample:
  "isGameWon wonSingle \<and> outOfRange wonSingle (- 1) 0 \<and> returned (openCell 2 wonSingle (- 1) 0)"
  by code_simp

text \<open>
  C5, amended: with a coordinate outside the board, \<open>startGame\<close> and \<open>toggleFlag\<close>
  raise the range error in every state and leave the board as it is; \<open>openCell\<close>
  raises it while the game is neither over nor won, and returns without any change
  once it is.
\<close>

theorem C5_out_of_range:
  assumes "outOfRange b r c"
  shows "startGame rnd now b r c = Threw RangeError b
    \<and> toggleFlag b r c = Threw RangeError b
    \<and> openCell now b r c = (if isGameOver b \<or> isGameWon b then Returned b else Threw RangeError b)"
  using assms by (simp add: startGame_out toggleFlag_def outOfRange_def openCell_unfold)

theorem C5_out_of_range_witness:
  "outOfRange (newBoard BEGINNER) 8 0
   \<and> startGame zeroOracle 0 (newBoard BEGINNER) 8 0 = Threw RangeError (newBoard BEGINNER)
   \<and> toggleFlag (newBoard BEGINNER) 8 0 = Threw RangeError (newBoard BEGINNER)
   \<and> openCell 0 (newBoard BEGINNER) 8 0
       = (if isGameOver (newBoard BEGINNER) \<or> isGameWon (newBoard BEGINNER)
          then Returned (newBoard BEGINNER) else Threw RangeError (newBoard BEGINNER))"
proof -
  have h: "outOfRange (newBoard BEGINNER) 8 0" by code_simp
  from C5_out_of_range [where rnd = zeroOracle and now = 0, OF h] h show ?thesis by blast
qed

section \<open>The claims about opening cells and the counters\<close>

text \<open>
  C9: while the game is active, \<open>openCell\<close> on a flagged, closed cell of the board that
  is not a mine opens the cell and leaves the flag counter as it was (the cell keeps
  its flag); \<open>openCell\<close> never changes the flag counter, and \<open>toggleFlag\<close> on the
  same cell lowers it by one.
\<close>

theorem C9_open_flagged_keeps_flags:
  assumes "\<not> isGameOver b" and "\<not> isGameWon b" and "\<not> outOfRange b r c"
    and "cellAt b r c = Some cell"
    and "isFlagged (state cell)" and "\<not> isOpened (state cell)" and "\<not> isMine (state cell)"
  shows "flags (boardOf (openCell now b r c)) = flags b
    \<and> (\<exists>cell'. cellAt (boardOf (openCell now b r c)) r c = Some cell'
          \<and> isOpened (state cell') \<and> isFlagged (state cell'))
    \<and> (\<forall>now' b' r' c'. flags (boardOf (openCell now' b' r' c')) = flags b')
    \<and> flags (boardOf (toggleFlag b r c)) = flags b - 1"
proof -
  have frame: "flags (boardOf (openCell now' b' r' c')) = flags b'" for now' b' r' c'
    using openCell_grows [of b' now' r' c'] by (rule grows_fieldsD(5))
  let ?f = "if adjacentMines (state cell) = 0
                 then openAdjacentCells now (openStep b r c) r c
                 else Returned (openStep b r c)"
  have eq: "openCell now b r c = (case ?f of
            Threw e b2 \<Rightarrow> Threw e b2
          | Returned b2 \<Rightarrow>
              if openedCells b2 = rows b2 * cols b2 - mines b2
              then Returned (b2\<lparr> isGameWon := True \<rparr>)
              else Returned b2)"
    using assms(1-4,6,7) by (rule openCell_safe)
  have same: "cellAt (boardOf (openCell now b r c)) = cellAt (boardOf ?f)"
    unfolding eq by (cases ?f) (simp_all split: if_splits)
  have "grows (openStep b r c) (boardOf ?f)" by (simp add: flood_grows)
  moreover have "cellAt (openStep b r c) r c = Some (cell\<lparr> state := set_isOpened True (state cell) \<rparr>)"
    by (simp add: openStep_def cellAt_updateState [OF assms(4)])
  ultimately obtain y where y: "cellAt (boardOf ?f) r c = Some y"
    "sameCell (cell\<lparr> state := set_isOpened True (state cell) \<rparr>) y"
    by (rule grows_cellAt)
  from y(2) assms(5) have "isOpened (state y) \<and> isFlagged (state y)"
    by (simp add: sameCell_def set_isOpened_def)
  with y(1) have opened: "\<exists>cell'. cellAt (boardOf (openCell now b r c)) r c = Some cell'
          \<and> isOpened (state cell') \<and> isFlagged (state cell')"
    by (simp add: same)
  have "flags (boardOf (toggleFlag b r c)) = flags b - 1"
    using assms
    by (simp add: toggleFlag_def outOfRange_def Let_def cellAt_updateState [OF assms(4)]
        set_isFlagged_def)
  with frame opened show ?thesis by blast
qed

theorem C9_open_flagged_keeps_flags_witness:
  "\<not> isGameOver flaggedSmall \<and> \<not> isGameWon flaggedSmall \<and> \<not> outOfRange flaggedSmall 2 2
   \<and> cellAt flaggedSmall 2 2 = Some (the (cellAt flaggedSmall 2 2))
   \<and> isFlagged (state (the (cellAt flaggedSmall 2 2)))
   \<and> \<not> isOpened (state (the (cellAt flaggedSmall 2 2)))
   \<and> \<not> isMine (state (the (cellAt flaggedSmall 2 2)))
   \<and> flags flaggedSmall = 1
   \<and> flags (boardOf (openCell 3 flaggedSmall 2 2)) = flags flaggedSmall
   \<and> (\<exists>cell'. cellAt (boardOf (openCell 3 flaggedSmall 2 2)) 2 2 = Some cell'
          \<and> isOpened (state cell') \<and> isFlagged (state cell'))"
proof -
  have h1: "\<not> isGameOver flaggedSmall" by code_simp
  have h2: "\<not> isGameWon flaggedSmall" by code_simp
  have h3: "\<not> outOfRange flaggedSmall 2 2" by code_simp
  have h4: "cellAt flaggedSmall 2 2 = Some (the (cellAt flaggedSmall 2 2))" by code_simp
  have h5: "isFlagged (state (the (cellAt flaggedSmall 2 2)))" by code_simp
  have h6: "\<not> isOpened (state (the (cellAt flaggedSmall 2 2)))" by code_simp
  have h7: "\<not> isMine (state (the (cellAt flaggedSmall 2 2)))" by code_simp
  have h8: "flags flaggedSmall = 1" by code_simp
  from C9_open_flagged_keeps_flags [OF h1 h2 h3 h4 h5 h6 h7, of 3] h1 h2 h3 h4 h5 h6 h7 h8
  show ?thesis by blast
qed

text \<open>
  C8: on a board reached by any sequence of calls from a constructed board, while the
  game is active, \<open>openCell\<close> on a mined cell of the board returns, makes the game
  over and sets the end time. Every cell that was a mine before the call, the one
  opened included, is at its place after the call, still a mine and now opened, and
  every other cell is as it was; so the opened mines after the call are as many as the
  mines before it, at least one, on a grid of the same size. Every later \<open>openCell\<close>,
  on any cell, returns the board unchanged.
\<close>

theorem C8_open_mine_ends_game:
  assumes "\<not> isGameOver (run ops (newBoard d))" and "\<not> isGameWon (run ops (newBoard d))"
    and "\<not> outOfRange (run ops (newBoard d)) r c"
    and "cellAt (run ops (newBoard d)) r c = Some cell" and "isMine (state cell)"
  shows "returned (openCell now (run ops (newBoard d)) r c)
    \<and> isGameOver (boardOf (openCell now (run ops (newBoard d)) r c))
    \<and> endTime (boardOf (openCell now (run ops (newBoard d)) r c)) = Some now
    \<and> cellAt (boardOf (openCell now (run ops (newBoard d)) r c)) r c
        = Some (cell\<lparr> state := set_isOpened True (state cell) \<rparr>)
    \<and> (\<forall>r' c' x. cellAt (run ops (newBoard d)) r' c' = Some x \<longrightarrow>
          cellAt (boardOf (openCell now (run ops (newBoard d)) r c)) r' c'
            = Some (if isMine (state x) then x\<lparr> state := set_isOpened True (state x) \<rparr> else x))
    \<and> (\<forall>r' c' x. cellAt (run ops (newBoard d)) r' c' = Some x \<longrightarrow> isMine (state x) \<longrightarrow>
          (\<exists>y. cellAt (boardOf (openCell now (run ops (newBoard d)) r c)) r' c' = Some y
             \<and> isMine (state y) \<and> isOpened (state y)))
    \<and> (\<forall>r' c' cell'. cellAt (boardOf (openCell now (run ops (newBoard d)) r c)) r' c' = Some cell'
          \<longrightarrow> isMine (state cell') \<longrightarrow> isOpened (state cell'))
    \<and> countCells (\<lambda>s. isMine s \<and> isOpened s) (boardOf (openCell now (run ops (newBoard d)) r c))
        = countCells isMine (run ops (newBoard d))
    \<and> 0 < countCells (\<lambda>s. isMine s \<and> isOpened s) (boardOf (openCell now (run ops (newBoard d)) r c))
    \<and> rows (boardOf (openCell now (run ops (newBoard d)) r c)) = rows (run ops (newBoard d))
    \<and> cols (boardOf (openCell now (run ops (newBoard d)) r c)) = cols (run ops (newBoard d))
    \<and> gridOK (boardOf (openCell now (run ops (newBoard d)) r c))
    \<and> (\<forall>now' r' c'. openCell now' (boardOf (openCell now (run ops (newBoard d)) r c)) r' c'
          = Returned (boardOf (openCell now (run ops (newBoard d)) r c)))"
proof -
  define b where "b = run ops (newBoard d)"
  define b0 where "b0 = b\<lparr> isGameOver := True, endTime := Some now \<rparr>"
  define b' where "b' = boardOf (openCell now b r c)"
  note a = assms [folded b_def]
  have snd: "sound b" unfolding b_def by (rule sound_reachable)
  then have grid: "gridOK b" and listed: "minesListed b" and all: "allMinesListed b"
    by (simp_all add: sound_def)
  have "minesClosed b" unfolding b_def by (rule minesClosed_reachable)
  with a(1) have "countCells (\<lambda>s. isOpened s \<and> isMine s) b = 0" by (simp add: minesClosed_def)
  with a(4,5) have closed: "\<not> isOpened (state cell)" unfolding countCells_zero_iff by blast
  have eq: "openCell now b r c = openMinesFrom (minesList b) b0"
    using openCell_mine [OF a(1-4) closed a(5), of now] by (simp add: openAllMines_def b0_def)
  have ret: "returned (openCell now b r c)" using grid listed a(3) by (rule openCell_returns)
  have over: "isGameOver b'" and endt: "endTime b' = Some now"
    using openMinesFrom_fields [of "minesList b" b0] by (simp_all add: b'_def eq b0_def)
  have c0: "cellAt b0 r' c' = cellAt b r' c'" for r' c' by (simp add: b0_def cellAt_def)
  have ex: "\<forall>(r, c) \<in> set (minesList b). cellAt b0 r c \<noteq> None"
    using listed by (auto simp: minesListed_alt mineAt_def c0)
  have g: "grows b b'" unfolding b'_def by (rule openCell_grows)
  have cellsAfter: "cellAt b' r' c'
      = Some (if isMine (state x) then x\<lparr> state := set_isOpened True (state x) \<rparr> else x)"
    if x: "cellAt b r' c' = Some x" for r' c' x
  proof (cases "isMine (state x)")
    case True
    with x have m: "mineAt b r' c'" by (simp add: mineAt_def)
    from cellAt_inside [OF grid x] have "(r', c') \<in> set (coords b)" by (simp add: set_coords)
    with all m have "(r', c') \<in> set (minesList b)" by (auto simp: allMinesListed_alt)
    with openMinesFrom_cells [OF ex, of r' c'] x True show ?thesis by (simp add: b'_def eq c0)
  next
    case False
    with x have "\<not> mineAt b r' c'" by (simp add: mineAt_def)
    with listed have "(r', c') \<notin> set (minesList b)" by (auto simp: minesListed_alt)
    with openMinesFrom_cells [OF ex, of r' c'] x False show ?thesis by (simp add: b'_def eq c0)
  qed
  have clicked: "cellAt b' r c = Some (cell\<lparr> state := set_isOpened True (state cell) \<rparr>)"
    using cellsAfter [OF a(4)] a(5) by simp
  have before: "\<exists>y. cellAt b' r' c' = Some y \<and> isMine (state y) \<and> isOpened (state y)"
    if "cellAt b r' c' = Some x" "isMine (state x)" for r' c' x
    using cellsAfter [OF that(1)] that(2) by (simp add: set_isOpened_def)
  have mines: "isOpened (state y)" if y: "cellAt b' r' c' = Some y" "isMine (state y)" for r' c' y
  proof -
    from grows_cellAt_rev [OF g y(1)] obtain x where x: "cellAt b r' c' = Some x" "sameCell x y" .
    with y(2) have "isMine (state x)" by (simp add: sameCell_def)
    from before [OF x(1) this] y(1) show ?thesis by simp
  qed
  have "countCells (\<lambda>s. isMine s \<and> \<not> isOpened s) b' = 0"
    unfolding countCells_zero_iff using mines by blast
  with countCells_split [of isMine b' isOpened]
  have "countCells (\<lambda>s. isMine s \<and> isOpened s) b' = countCells isMine b'" by simp
  also have "\<dots> = countCells isMine b" unfolding b'_def by (rule openCell_mine_count)
  finally have cnt: "countCells (\<lambda>s. isMine s \<and> isOpened s) b' = countCells isMine b" .
  have "countCells isMine b \<noteq> 0" unfolding countCells_zero_iff using a(4,5) by blast
  with cnt have pos: "0 < countCells (\<lambda>s. isMine s \<and> isOpened s) b'" by simp
  have shape: "rows b' = rows b" "cols b' = cols b" using g by (simp_all add: grows_def)
  have grid': "gridOK b'" using grows_gridOK [OF g] grid by simp
  have noop: "openCell now' b' r' c' = Returned b'" for now' r' c'
    using over by (simp add: openCell_unfold)
  from ret over endt clicked cellsAfter before mines cnt pos shape grid' noop
  show ?thesis unfolding b'_def b_def by blast
qed

theorem C8_open_mine_ends_game_witness:
  "\<not> isGameOver (run [StartGame zeroOracle 0 0 0] (newBoard small))
   \<and> \<not> isGameWon (run [StartGame zeroOracle 0 0 0] (newBoard small))
   \<and> \<not> outOfRange (run [StartGame zeroOracle 0 0 0] (newBoard small)) 0 2
   \<and> cellAt (run [StartGame zeroOracle 0 0 0] (newBoard small)) 0 2
       = Some (the (cellAt (run [StartGame zeroOracle 0 0 0] (newBoard small)) 0 2))
   \<and> isMine (state (the (cellAt (run [StartGame zeroOracle 0 0 0] (newBoard small)) 0 2)))
   \<and> countCells isMine (run [StartGame zeroOracle 0 0 0] (newBoard small)) = 1
   \<and> returned (openCell 4 (run [StartGame zeroOracle 0 0 0] (newBoard small)) 0 2)
   \<and> isGameOver (boardOf (openCell 4 (run [StartGame zeroOracle 0 0 0] (newBoard small)) 0 2))
   \<and> endTime (boardOf (openCell 4 (run [StartGame zeroOracle 0 0 0] (newBoard small)) 0 2)) = Some 4
   \<and> (\<exists>y. cellAt (boardOf (openCell 4 (run [StartGame zeroOracle 0 0 0] (newBoard small)) 0 2)) 0 2
            = Some y \<and> isMine (state y) \<and> isOpened (state y))
   \<and> countCells (\<lambda>s. isMine s \<and> isOpened s)
        (boardOf (openCell 4 (run [StartGame zeroOracle 0 0 0] (newBoard small)) 0 2)) = 1
   \<and> rows (boardOf (openCell 4 (run [StartGame zeroOracle 0 0 0] (newBoard small)) 0 2)) = 3
   \<and> cols (boardOf (openCell 4 (run [StartGame zeroOracle 0 0 0] (newBoard small)) 0 2)) = 3
   \<and> openCell 5 (boardOf (openCell 4 (run [StartGame zeroOracle 0 0 0] (newBoard small)) 0 2)) 1 1
       = Returned (boardOf (openCell 4 (run [StartGame zeroOracle 0 0 0] (newBoard small)) 0 2))"
proof -
  have h1: "\<not> isGameOver (run [StartGame zeroOracle 0 0 0] (newBoard small))" by code_simp
  have h2: "\<not> isGameWon (run [StartGame zeroOracle 0 0 0] (newBoard small))" by code_simp
  have h3: "\<not> outOfRange (run [StartGame zeroOracle 0 0 0] (newBoard small)) 0 2" by code_simp
  have h4: "cellAt (run [StartGame zeroOracle 0 0 0] (newBoard small)) 0 2
       = Some (the (cellAt (run [StartGame zeroOracle 0 0 0] (newBoard small)) 0 2))" by code_simp
  have h5: "isMine (state (the (cellAt (run [StartGame zeroOracle 0 0 0] (newBoard small)) 0 2)))"
    by code_simp
  have h6: "countCells isMine (run [StartGame zeroOracle 0 0 0] (newBoard small)) = 1" by code_simp
  have h7: "rows (run [StartGame zeroOracle 0 0 0] (newBoard small)) = 3" by code_simp
  have h8: "cols (run [StartGame zeroOracle 0 0 0] (newBoard small)) = 3" by code_simp
  note t = C8_open_mine_ends_game [OF h1 h2 h3 h4 h5, of 4]
  from t h4 h5 have ex: "\<exists>y. cellAt (boardOf (openCell 4 (run [StartGame zeroOracle 0 0 0] (newBoard small)) 0 2)) 0 2
            = Some y \<and> isMine (state y) \<and> isOpened (state y)" by blast
  from t h6 have cnt: "countCells (\<lambda>s. isMine s \<and> isOpened s)
        (boardOf (openCell 4 (run [StartGame zeroOracle 0 0 0] (newBoard small)) 0 2)) = 1" by simp
  from t h7 h8 have shape:
    "rows (boardOf (openCell 4 (run [StartGame zeroOracle 0 0 0] (newBoard small)) 0 2)) = 3"
    "cols (boardOf (openCell 4 (run [StartGame zeroOracle 0 0 0] (newBoard small)) 0 2)) = 3"
    by simp_all
  from t have noop: "openCell 5 (boardOf (openCell 4 (run [StartGame zeroOracle 0 0 0] (newBoard small)) 0 2)) 1 1
       = Returned (boardOf (openCell 4 (run [StartGame zeroOracle 0 0 0] (newBoard small)) 0 2))"
    by blast
  from t h1 h2 h3 h4 h5 h6 ex cnt shape noop show ?thesis by blast
qed

text \<open>
  C4, as stated: after every sequence of calls the counter of opened cells is the
  number of opened cells, also after a mine was opened. It fails there: the mines are
  revealed without being counted.
\<close>

theorem C4_revealed_mines_uncounted_counterexample:
  "isGameOver lostSmall \<and> openedCells lostSmall = 0 \<and> countCells isOpened lostSmall = 1"
  by code_simp

text \<open>
  C4, amended: after every sequence of calls on a constructed board, the counter of
  opened cells is the number of opened cells that are not mines; it is the number of
  opened cells as long as the game is not over.
\<close>

theorem C4_opened_counter:
  "openedCells (run ops (newBoard d))
     = int (countCells (\<lambda>s. isOpened s \<and> \<not> isMine s) (run ops (newBoard d)))
   \<and> (\<not> isGameOver (run ops (newBoard d)) \<longrightarrow>
        openedCells (run ops (newBoard d)) = int (countCells isOpened (run ops (newBoard d))))"
proof -
  define b where "b = run ops (newBoard d)"
  have "sound b" unfolding b_def by (rule sound_reachable)
  then have 1: "openedCells b = int (countCells (\<lambda>s. isOpened s \<and> \<not> isMine s) b)"
    by (simp add: sound_def safeOpened_def)
  have "minesClosed b" unfolding b_def by (rule minesClosed_reachable)
  then have "countCells (\<lambda>s. isOpened s \<and> isMine s) b = 0" if "\<not> isGameOver b"
    using that by (simp add: minesClosed_def)
  with 1 countCells_split [of isOpened b isMine]
  have "openedCells b = int (countCells isOpened b)" if "\<not> isGameOver b"
    using that by simp
  with 1 show ?thesis unfolding b_def by blast
qed

theorem C4_opened_counter_witness:
  "\<not> isGameOver wonStrip \<and> openedCells wonStrip = 2
   \<and> openedCells wonStrip = int (countCells isOpened wonStrip)"
proof -
  have h: "\<not> isGameOver wonStrip" by code_simp
  have n: "openedCells wonStrip = 2" by code_simp
  from C4_opened_counter [of "[StartGame zeroOracle 0 0 0, OpenCell 1 0 0]" strip] h n
  show ?thesis by (simp add: wonStrip_def)
qed

text \<open>
  C2: on a board constructed with fewer mines than cells, after every sequence of
  calls the game is won exactly when the counter of opened cells is
  \<open>rows * cols - mines\<close>, and a game is never both won and over.
\<close>

theorem C2_won_iff_all_safe_opened:
  assumes "Difficulty.mines d < Difficulty.rows d * Difficulty.cols d"
  shows "(isGameWon (run ops (newBoard d)) \<longleftrightarrow>
      openedCells (run ops (newBoard d))
        = rows (run ops (newBoard d)) * cols (run ops (newBoard d)) - mines (run ops (newBoard d)))
    \<and> \<not> (isGameWon (run ops (newBoard d)) \<and> isGameOver (run ops (newBoard d)))"
proof -
  have t: "target (newBoard d) \<noteq> 0" using assms by (simp add: newBoard_def target_def reset_def)
  then have "winInv (newBoard d)" unfolding newBoard_def by (intro winInv_reset) simp
  from winInv_run [OF this sound_newBoard t, of ops] show ?thesis
    by (simp add: winInv_def target_def)
qed

theorem C2_won_iff_all_safe_opened_witness:
  "Difficulty.mines strip < Difficulty.rows strip * Difficulty.cols strip
   \<and> isGameWon wonStrip \<and> openedCells wonStrip = rows wonStrip * cols wonStrip - mines wonStrip
   \<and> \<not> isGameOver wonStrip"
proof -
  have h: "Difficulty.mines strip < Difficulty.rows strip * Difficulty.cols strip" by code_simp
  have w: "isGameWon wonStrip" by code_simp
  from C2_won_iff_all_safe_opened [OF h, of "[StartGame zeroOracle 0 0 0, OpenCell 1 0 0]"] h w
  show ?thesis by (simp add: wonStrip_def)
qed

section \<open>The region of a cell\<close>

subsection \<open>The region\<close>

lemma fresh_grows: "grows b b' \<Longrightarrow> fresh b' r c \<Longrightarrow> fresh b r c"
proof -
  assume g: "grows b b'" and f: "fresh b' r c"
  then obtain y where y: "cellAt b' r c = Some y" "\<not> isOpened (state y)" "\<not> isFlagged (state y)"
    "\<not> isMine (state y)" and out: "\<not> outOfRange b' r c"
    by (auto simp: fresh_def split: option.splits)
  from grows_cellAt_rev [OF g y(1)] obtain x where "cellAt b r c = Some x" "sameCell x y" .
  with y out grows_outOfRange [OF g] show ?thesis by (auto simp: fresh_def sameCell_def)
qed

lemma zeroAt_grows: "grows b b' \<Longrightarrow> zeroAt b' r c = zeroAt b r c"
proof (cases "cellAt b r c")
  case None
  assume "grows b b'"
  then have "map length (cells b') = map length (cells b)" by (simp add: grows_def)
  from cellAt_shape [OF this, of r c] None show ?thesis by (simp add: zeroAt_def)
next
  case (Some x)
  assume "grows b b'"
  from grows_cellAt [OF this Some] obtain y where "cellAt b' r c = Some y" "sameCell x y" .
  with Some show ?thesis by (simp add: zeroAt_def sameCell_def)
qed

lemma openedAt_grows: "grows b b' \<Longrightarrow> openedAt b r c \<Longrightarrow> openedAt b' r c"
proof -
  assume g: "grows b b'" and "openedAt b r c"
  then obtain x where x: "cellAt b r c = Some x" "isOpened (state x)"
    by (auto simp: openedAt_def split: option.splits)
  from grows_cellAt [OF g x(1)] obtain y where "cellAt b' r c = Some y" "sameCell x y" .
  with x(2) show ?thesis by (simp add: openedAt_def sameCell_def)
qed

lemma reach_grows:
  assumes "grows b b'" and "(x, y) \<in> reach b' r c"
  shows "(x, y) \<in> reach b r c"
  using assms(2)
proof (induction rule: reach.induct)
  case start
  show ?case by (rule reach.start)
next
  case (step r1 c1 d)
  from step.hyps(2) have "zeroAt b r1 c1" by (simp add: zeroAt_grows [OF assms(1)])
  moreover from step.hyps(4) have "fresh b (r1 + fst d) (c1 + snd d)" by (rule fresh_grows [OF assms(1)])
  ultimately show ?case using step.IH step.hyps(3) by (intro reach.step)
qed

lemma reach_trans:
  assumes "(r1, c1) \<in> reach b r c" and "(x, y) \<in> reach b r1 c1"
  shows "(x, y) \<in> reach b r c"
  using assms(2)
proof (induction rule: reach.induct)
  case start
  show ?case by (rule assms(1))
next
  case (step r2 c2 d)
  then show ?case by (intro reach.step)
qed

lemma reach_fresh: "(r', c') \<in> reach b r c \<Longrightarrow> (r', c') = (r, c) \<or> fresh b r' c'"
  by (induction rule: reach.induct) simp_all

lemma openedAt_openStep:
  assumes "cellAt b r c = Some cell"
  shows "openedAt (openStep b r c) r' c' \<longleftrightarrow> openedAt b r' c' \<or> (r' = r \<and> c' = c)"
  using assms by (auto simp: openedAt_def openStep_def cellAt_updateState [OF assms] set_isOpened_def)

lemma zeroAt_openStep:
  assumes "cellAt b r c = Some cell"
  shows "zeroAt (openStep b r c) r' c' = zeroAt b r' c'"
  using grows_openStep [OF assms] by (rule zeroAt_grows)

lemma openCell_safe_cells:
  assumes "\<not> isGameOver b" "\<not> isGameWon b" "\<not> outOfRange b r c" "cellAt b r c = Some cell"
    "\<not> isOpened (state cell)" "\<not> isMine (state cell)"
  shows "cellAt (boardOf (openCell now b r c))
    = cellAt (boardOf (if adjacentMines (state cell) = 0
                 then openAdjacentCells now (openStep b r c) r c
                 else Returned (openStep b r c)))"
  unfolding openCell_safe [OF assms]
  by (cases "if adjacentMines (state cell) = 0
                 then openAdjacentCells now (openStep b r c) r c
                 else Returned (openStep b r c)") (simp_all split: if_splits)

lemma openedAt_cong: "cellAt b1 = cellAt b2 \<Longrightarrow> openedAt b1 = openedAt b2"
  by (simp add: openedAt_def fun_eq_iff)

subsection \<open>The flood fill opens no cell outside the region\<close>

lemma flood_sound:
  "(\<And>cell. cellAt b r c = Some cell \<Longrightarrow> \<not> isMine (state cell)) \<Longrightarrow>
     openedAt (boardOf (openCell now b r c)) r' c' \<Longrightarrow> openedAt b r' c' \<or> (r', c') \<in> reach b r c"
  "zeroAt b r c \<Longrightarrow>
     openedAt (boardOf (openAdjacentCells now b r c)) r' c' \<Longrightarrow> openedAt b r' c' \<or> (r', c') \<in> reach b r c"
  "set ds \<subseteq> set directions \<Longrightarrow> zeroAt b r c \<Longrightarrow>
     openedAt (boardOf (openAround ds now b r c)) r' c' \<Longrightarrow> openedAt b r' c' \<or> (r', c') \<in> reach b r c"
proof (induction now b r c and now b r c and ds now b r c rule: flood_induct)
  case (openCell now b r c)
  show ?case
  proof (cases "isGameOver b \<or> isGameWon b \<or> outOfRange b r c \<or> cellAt b r c = None
      \<or> (\<exists>cell. cellAt b r c = Some cell \<and> isOpened (state cell))")
    case True
    then have "boardOf (openCell now b r c) = b" by (rule openCell_noop)
    with openCell.prems(2) show ?thesis by simp
  next
    case False
    then obtain cell where cell: "cellAt b r c = Some cell" "\<not> isOpened (state cell)"
      and act: "\<not> isGameOver b" "\<not> isGameWon b" "\<not> outOfRange b r c" by auto
    note safe = openCell.prems(1) [OF cell(1)]
    let ?b1 = "openStep b r c"
    let ?f = "if adjacentMines (state cell) = 0
                 then openAdjacentCells now ?b1 r c else Returned ?b1"
    from openCell.prems(2) have o: "openedAt (boardOf ?f) r' c'"
      by (simp add: openedAt_cong [OF openCell_safe_cells [OF act cell safe]])
    have "openedAt ?b1 r' c' \<or> (r', c') \<in> reach ?b1 r c"
    proof (cases "adjacentMines (state cell) = 0")
      case True
      then have "zeroAt b r c" using cell(1) by (simp add: zeroAt_def)
      then have "zeroAt ?b1 r c" by (simp only: zeroAt_openStep [OF cell(1)])
      from openCell.IH [OF act cell safe True this] o True show ?thesis by simp
    next
      case False
      with o show ?thesis by simp
    qed
    then show ?thesis
      using openedAt_openStep [OF cell(1)] reach_grows [OF grows_openStep [OF cell(1)]]
      by (auto intro: reach.start)
  qed
next
  case (openAdjacentCells now b r c)
  show ?case
  proof (cases "outOfRange b r c")
    case True
    with openAdjacentCells.prems show ?thesis by (simp add: openAdjacentCells_unfold)
  next
    case False
    with openAdjacentCells.IH [OF False _ openAdjacentCells.prems(1)] openAdjacentCells.prems(2)
    show ?thesis by (simp add: openAdjacentCells_unfold)
  qed
next
  case (Nil now b r c)
  then show ?case by (simp add: openAround.simps)
next
  case (Cons d ds now b r c)
  let ?v = "visit now b r c d"
  let ?bv = "boardOf ?v"
  have d: "d \<in> set directions" and ds: "set ds \<subseteq> set directions" using Cons.prems(1) by simp_all
  have V: "openedAt b r' c' \<or> (r', c') \<in> reach b r c" if o: "openedAt ?bv r' c'"
  proof (cases "\<not> outOfRange b (r + fst d) (c + snd d) \<and> fresh b (r + fst d) (c + snd d)")
    case True
    then obtain cell where cell: "cellAt b (r + fst d) (c + snd d) = Some cell"
      "\<not> isOpened (state cell)" "\<not> isFlagged (state cell)" "\<not> isMine (state cell)"
      and out: "\<not> outOfRange b (r + fst d) (c + snd d)"
      by (auto simp: fresh_def split: option.splits)
    then have v: "?v = openCell now b (r + fst d) (c + snd d)" by (simp add: visit_def)
    have "openedAt b r' c' \<or> (r', c') \<in> reach b (r + fst d) (c + snd d)"
      using Cons.IH(1) [OF out cell] cell o v by simp
    moreover have "(r + fst d, c + snd d) \<in> reach b r c"
      using reach.start Cons.prems(2) d True by (intro reach.step) simp_all
    ultimately show ?thesis using reach_trans by blast
  next
    case False
    then have "?bv = b" by (auto simp: visit_def fresh_def split: option.splits)
    with o show ?thesis by simp
  qed
  have g: "grows b ?bv" by (rule visit_grows)
  show ?case
  proof (cases ?v)
    case (Threw e b1)
    with Cons.prems(3) have "openedAt ?bv r' c'" by (simp add: openAround_Cons)
    then show ?thesis by (rule V)
  next
    case (Returned b1)
    then have b1: "b1 = ?bv" by simp
    have z: "zeroAt b1 r c" using Cons.prems(2) by (simp add: b1 zeroAt_grows [OF g])
    from Cons.prems(3) Returned have "openedAt (boardOf (openAround ds now b1 r c)) r' c'"
      by (simp add: openAround_Cons)
    from Cons.IH(2) [OF Returned ds z this] have "openedAt b1 r' c' \<or> (r', c') \<in> reach b1 r c" .
    then show ?thesis using V reach_grows [OF g] b1 by auto
  qed
qed

section \<open>Completeness of the flood fill\<close>

lemma processed_grows:
  assumes "grows b b'" and "processed b r c"
  shows "processed b' r c"
  using assms(2) fresh_grows [OF assms(1)] by (auto simp: processed_def zeroAt_grows [OF assms(1)])

lemma settled_refl [simp]: "settled b b"
  by (simp add: settled_def)

lemma settled_trans:
  assumes "settled b1 b2" and "settled b2 b3" and "grows b2 b3"
  shows "settled b1 b3"
  unfolding settled_def
proof (intro allI impI)
  fix r c
  assume o: "openedAt b3 r c" and n: "\<not> openedAt b1 r c"
  show "processed b3 r c"
  proof (cases "openedAt b2 r c")
    case True
    with assms(1) n have "processed b2 r c" by (simp add: settled_def)
    with assms(3) show ?thesis by (rule processed_grows)
  next
    case False
    with assms(2) o show ?thesis by (simp add: settled_def)
  qed
qed

lemma fresh_not_opened: "openedAt b r c \<Longrightarrow> \<not> fresh b r c"
  by (auto simp: openedAt_def fresh_def split: option.splits)

lemma visit_floodRel: "floodRel b (boardOf (visit now b r c d))"
proof (cases "\<not> outOfRange b (r + fst d) (c + snd d) \<and> fresh b (r + fst d) (c + snd d)")
  case True
  then obtain cell where cell: "cellAt b (r + fst d) (c + snd d) = Some cell"
    "\<not> isOpened (state cell)" "\<not> isFlagged (state cell)" "\<not> isMine (state cell)"
    by (auto simp: fresh_def split: option.splits)
  with True have v: "visit now b r c d = openCell now b (r + fst d) (c + snd d)"
    by (simp add: visit_def)
  have "floodRel b (boardOf (openCell now b (r + fst d) (c + snd d)))"
    by (rule flood_closure(1) [where R = floodRel])
      (rule floodRel_refl, erule (1) floodRel_trans, erule (1) floodRel_openStep, assumption,
        erule floodRel_win, use cell in simp)
  then show ?thesis by (simp add: v)
next
  case False
  then have "boardOf (visit now b r c d) = b" by (auto simp: visit_def fresh_def split: option.splits)
  then show ?thesis by simp
qed

lemma flood_complete:
  "gridOK b \<Longrightarrow> \<not> isGameOver b \<Longrightarrow> \<not> outOfRange b r c
     \<Longrightarrow> (\<And>cell. cellAt b r c = Some cell \<Longrightarrow> \<not> isMine (state cell))
     \<Longrightarrow> isGameWon (boardOf (openCell now b r c))
       \<or> (openedAt (boardOf (openCell now b r c)) r c \<and> settled b (boardOf (openCell now b r c)))"
  "gridOK b \<Longrightarrow> \<not> isGameOver b \<Longrightarrow> \<not> outOfRange b r c
     \<Longrightarrow> isGameWon (boardOf (openAdjacentCells now b r c))
       \<or> ((\<forall>d \<in> set directions. \<not> fresh (boardOf (openAdjacentCells now b r c)) (r + fst d) (c + snd d))
          \<and> settled b (boardOf (openAdjacentCells now b r c)))"
  "gridOK b \<Longrightarrow> \<not> isGameOver b
     \<Longrightarrow> isGameWon (boardOf (openAround ds now b r c))
       \<or> ((\<forall>d \<in> set ds. \<not> fresh (boardOf (openAround ds now b r c)) (r + fst d) (c + snd d))
          \<and> settled b (boardOf (openAround ds now b r c)))"
proof (induction now b r c and now b r c and ds now b r c rule: flood_induct)
  case (openCell now b r c)
  from gridOK_cellAt [OF openCell.prems(1,3)] obtain cell where cell: "cellAt b r c = Some cell" ..
  note safe = openCell.prems(4) [OF cell]
  show ?case
  proof (cases "isGameWon b \<or> isOpened (state cell)")
    case True
    then have "boardOf (openCell now b r c) = b" using cell by (intro openCell_noop) auto
    with True cell show ?thesis by (auto simp: openedAt_def)
  next
    case False
    then have act: "\<not> isGameOver b" "\<not> isGameWon b" "\<not> outOfRange b r c"
      and closed: "\<not> isOpened (state cell)"
      using openCell.prems by simp_all
    define b1 where "b1 = openStep b r c"
    define f where "f = (if adjacentMines (state cell) = 0
                 then openAdjacentCells now b1 r c else Returned b1)"
    define b2 where "b2 = boardOf f"
    have g1: "grows b b1" unfolding b1_def by (rule grows_openStep [OF cell])
    have grid1: "gridOK b1" using openCell.prems(1) by (simp add: b1_def)
    have "returned f" unfolding f_def using grid1 by (simp add: flood_returns(2))
    then have f: "f = Returned b2" unfolding b2_def by (cases f) simp_all
    have g12: "grows b1 b2" unfolding b2_def f_def by (simp add: flood_grows)
    have "openCell now b r c = (case f of
            Threw e x \<Rightarrow> Threw e x
          | Returned x \<Rightarrow>
              if openedCells x = rows x * cols x - mines x
              then Returned (x\<lparr> isGameWon := True \<rparr>)
              else Returned x)"
      unfolding f_def b1_def by (rule openCell_safe [OF act cell closed safe])
    then have eq: "openCell now b r c =
        (if openedCells b2 = rows b2 * cols b2 - mines b2
         then Returned (b2\<lparr> isGameWon := True \<rparr>) else Returned b2)"
      by (simp add: f)
    have o1: "openedAt b1 x y \<longleftrightarrow> openedAt b x y \<or> (x = r \<and> y = c)" for x y
      unfolding b1_def by (rule openedAt_openStep [OF cell])
    have full: "openedAt b2 r c \<and> settled b b2" if nw: "\<not> isGameWon b2"
    proof
      from o1 [of r c] show "openedAt b2 r c" by (intro openedAt_grows [OF g12]) simp
      have here: "processed b2 r c"
      proof (cases "adjacentMines (state cell) = 0")
        case True
        have "\<not> isGameOver b1" "\<not> outOfRange b1 r c" using act by (simp_all add: b1_def)
        from openCell.IH [OF act cell closed safe True, folded b1_def, OF grid1 this] True nw
        show ?thesis by (simp add: f_def b2_def processed_def)
      next
        case False
        then have "\<not> zeroAt b r c" using cell by (simp add: zeroAt_def)
        then have "\<not> zeroAt b2 r c" using grows_trans [OF g1 g12] by (simp add: zeroAt_grows)
        then show ?thesis by (simp add: processed_def)
      qed
      have rest: "settled b1 b2"
      proof (cases "adjacentMines (state cell) = 0")
        case True
        have "\<not> isGameOver b1" "\<not> outOfRange b1 r c" using act by (simp_all add: b1_def)
        from openCell.IH [OF act cell closed safe True, folded b1_def, OF grid1 this] True nw
        show ?thesis by (simp add: f_def b2_def)
      next
        case False
        then show ?thesis by (simp add: f_def b2_def)
      qed
      show "settled b b2"
        unfolding settled_def
      proof (intro allI impI)
        fix x y
        assume o: "openedAt b2 x y" and n: "\<not> openedAt b x y"
        show "processed b2 x y"
        proof (cases "openedAt b1 x y")
          case True
          with o1 [of x y] n have "x = r" "y = c" by simp_all
          with here show ?thesis by simp
        next
          case False
          with rest o show ?thesis by (simp add: settled_def)
        qed
      qed
    qed
    show ?thesis
    proof (cases "openedCells b2 = rows b2 * cols b2 - mines b2")
      case True
      then show ?thesis by (simp add: eq)
    next
      case False
      then have "boardOf (openCell now b r c) = b2" by (simp add: eq)
      with full show ?thesis by auto
    qed
  qed
next
  case (openAdjacentCells now b r c)
  from openAdjacentCells.IH [OF openAdjacentCells.prems(3,1,2)] openAdjacentCells.prems(3)
  show ?case by (simp add: openAdjacentCells_unfold)
next
  case (Nil now b r c)
  show ?case by (simp add: openAround.simps)
next
  case (Cons d ds now b r c)
  define bv where "bv = boardOf (visit now b r c d)"
  define q where "q = (r + fst d, c + snd d)"
  have gv: "grows b bv" unfolding bv_def by (rule visit_grows)
  have fv: "floodRel b bv" unfolding bv_def by (rule visit_floodRel)
  have V: "isGameWon bv \<or> (\<not> fresh bv (r + fst d) (c + snd d) \<and> settled b bv)"
    and ret: "returned (visit now b r c d)"
  proof -
    show "isGameWon bv \<or> (\<not> fresh bv (r + fst d) (c + snd d) \<and> settled b bv)"
    proof (cases "\<not> outOfRange b (r + fst d) (c + snd d) \<and> fresh b (r + fst d) (c + snd d)")
      case True
      then obtain cell where cell: "cellAt b (r + fst d) (c + snd d) = Some cell"
        "\<not> isOpened (state cell)" "\<not> isFlagged (state cell)" "\<not> isMine (state cell)"
        and out: "\<not> outOfRange b (r + fst d) (c + snd d)"
        by (auto simp: fresh_def split: option.splits)
      then have v: "visit now b r c d = openCell now b (r + fst d) (c + snd d)"
        by (simp add: visit_def)
      from Cons.IH(1) [OF out cell Cons.prems out] cell(1,4)
      show ?thesis by (auto simp: bv_def v dest: fresh_not_opened)
    next
      case False
      then have same: "bv = b" by (auto simp: bv_def visit_def fresh_def split: option.splits)
      from False have "\<not> fresh b (r + fst d) (c + snd d)" by (auto simp: fresh_def)
      with same show ?thesis by simp
    qed
    show "returned (visit now b r c d)"
    proof (cases "outOfRange b (r + fst d) (c + snd d)")
      case True
      then show ?thesis by (simp add: visit_def)
    next
      case False
      from gridOK_cellAt [OF Cons.prems(1) False] obtain cell
        where cell: "cellAt b (r + fst d) (c + snd d) = Some cell" ..
      then show ?thesis using False Cons.prems(1)
        by (auto simp: visit_def intro!: flood_returns(1))
    qed
  qed
  from ret have v: "visit now b r c d = Returned bv" unfolding bv_def
    by (cases "visit now b r c d") simp_all
  define b' where "b' = boardOf (openAround ds now bv r c)"
  have eq: "boardOf (openAround (d # ds) now b r c) = b'"
    by (simp add: openAround_Cons v b'_def)
  have gridv: "gridOK bv" using Cons.prems(1) by (simp add: grows_gridOK [OF gv])
  have overv: "\<not> isGameOver bv" using fv Cons.prems(2) by (simp add: floodRel_def)
  have g': "grows bv b'" unfolding b'_def by (rule flood_grows)
  have f': "floodRel bv b'" unfolding b'_def by (rule flood_floodRel)
  from Cons.IH(2) [OF v gridv overv]
  have R: "isGameWon b' \<or> ((\<forall>d \<in> set ds. \<not> fresh b' (r + fst d) (c + snd d)) \<and> settled bv b')"
    by (simp add: b'_def)
  show ?case unfolding eq
  proof (cases "isGameWon b'")
    case True
    then show "isGameWon b' \<or> ((\<forall>d \<in> set (d # ds). \<not> fresh b' (r + fst d) (c + snd d)) \<and> settled b b')"
      by simp
  next
    case False
    with f' have nv: "\<not> isGameWon bv" by (auto simp: floodRel_def)
    with V have 1: "\<not> fresh bv (r + fst d) (c + snd d)" "settled b bv" by simp_all
    from R False have 2: "\<forall>d \<in> set ds. \<not> fresh b' (r + fst d) (c + snd d)" "settled bv b'" by simp_all
    from 1(1) fresh_grows [OF g'] have "\<not> fresh b' (r + fst d) (c + snd d)" by blast
    moreover from settled_trans [OF 1(2) 2(2) g'] have "settled b b'" .
    ultimately show "isGameWon b' \<or> ((\<forall>d \<in> set (d # ds). \<not> fresh b' (r + fst d) (c + snd d)) \<and> settled b b')"
      using 2(1) by simp
  qed
qed

section \<open>A safe cell of a started game\<close>

lemma countCells_all: "gridOK b \<Longrightarrow> countCells (\<lambda>_. True) b = nat (rows b) * nat (cols b)"
proof -
  assume "gridOK b"
  then have "map length (cells b) = replicate (nat (rows b)) (nat (cols b))" by (simp add: gridOK_def)
  then have "sum_list (map length (cells b)) = nat (rows b) * nat (cols b)"
    by (simp add: sum_list_replicate)
  then show ?thesis by (simp add: countCells_def length_concat)
qed

lemma all_safe_opened:
  assumes "countCells (\<lambda>s. isOpened s \<and> \<not> isMine s) b = countCells (\<lambda>s. \<not> isMine s) b"
    and "cellAt b r c = Some cell" and "\<not> isMine (state cell)"
  shows "isOpened (state cell)"
proof -
  have "(\<lambda>s. \<not> isMine s \<and> isOpened s) = (\<lambda>s. isOpened s \<and> \<not> isMine s)" by (auto simp: fun_eq_iff)
  then have "countCells (\<lambda>s. \<not> isMine s \<and> isOpened s) b = countCells (\<lambda>s. isOpened s \<and> \<not> isMine s) b"
    by (rule arg_cong)
  with countCells_split [of "\<lambda>s. \<not> isMine s" b isOpened] assms(1)
  have "countCells (\<lambda>s. \<not> isMine s \<and> \<not> isOpened s) b = 0" by linarith
  with assms(2,3) show ?thesis unfolding countCells_zero_iff by blast
qed

lemma flood_safe_cells:
  "countCells (\<lambda>s. \<not> isMine s) (boardOf (openAdjacentCells now b r c)) = countCells (\<lambda>s. \<not> isMine s) b"
proof -
  let ?R = "\<lambda>b b'. countCells (\<lambda>s. \<not> isMine s) b' = countCells (\<lambda>s. \<not> isMine s) b"
  have opn: "?R b (openStep b r c)" if "cellAt b r c = Some cell" for b r c cell
    using countCells_updateState [OF that, of "\<lambda>s. \<not> isMine s" "set_isOpened True"]
    by (simp add: openStep_def set_isOpened_def)
  have win: "?R b (b\<lparr> isGameWon := True \<rparr>)" for b by simp
  show ?thesis
    by (rule flood_closure(2) [where R = ?R]) (simp, simp, erule opn, rule win)
qed

text \<open>What a call that opens a safe cell leaves, in terms of the board after the flood fill.\<close>

lemma openCell_safe_result:
  assumes "\<not> isGameOver b" "\<not> isGameWon b" "\<not> outOfRange b r c" "cellAt b r c = Some cell"
    "\<not> isOpened (state cell)" "\<not> isMine (state cell)"
  shows "\<not> isGameOver (boardOf (openCell now b r c))"
    and "isGameWon (boardOf (openCell now b r c))
      \<Longrightarrow> openedCells (boardOf (openCell now b r c)) = target (boardOf (openCell now b r c))"
    and "countCells (\<lambda>s. isOpened s \<and> isMine s) (boardOf (openCell now b r c))
      = countCells (\<lambda>s. isOpened s \<and> isMine s) b"
    and "countCells (\<lambda>s. \<not> isMine s) (boardOf (openCell now b r c)) = countCells (\<lambda>s. \<not> isMine s) b"
proof -
  define f where "f = (if adjacentMines (state cell) = 0
                 then openAdjacentCells now (openStep b r c) r c
                 else Returned (openStep b r c))"
  define b2 where "b2 = boardOf f"
  have eq: "openCell now b r c = (case f of
            Threw e x \<Rightarrow> Threw e x
          | Returned x \<Rightarrow>
              if openedCells x = rows x * cols x - mines x
              then Returned (x\<lparr> isGameWon := True \<rparr>)
              else Returned x)"
    unfolding f_def by (rule openCell_safe [OF assms])
  have "floodRel (openStep b r c) b2" unfolding b2_def f_def by (simp add: flood_floodRel)
  with floodRel_openStep [OF assms(2,4,6)] have fr: "floodRel b b2" by (rule floodRel_trans)
  have sc: "countCells (\<lambda>s. \<not> isMine s) b2 = countCells (\<lambda>s. \<not> isMine s) b"
    using countCells_updateState [OF assms(4), of "\<lambda>s. \<not> isMine s" "set_isOpened True"]
    by (simp add: b2_def f_def flood_safe_cells openStep_def set_isOpened_def)
  have shape: "boardOf (openCell now b r c) = b2
    \<or> (openedCells b2 = target b2 \<and> boardOf (openCell now b r c) = b2\<lparr> isGameWon := True \<rparr>)"
  proof (cases f)
    case (Returned x)
    then have "x = b2" by (simp add: b2_def)
    with Returned show ?thesis unfolding eq by (simp add: target_def)
  next
    case (Threw e x)
    then have "x = b2" by (simp add: b2_def)
    with Threw show ?thesis unfolding eq by simp
  qed
  from fr assms(1,2) have f2: "\<not> isGameOver b2" "isGameWon b2 \<longrightarrow> openedCells b2 = target b2"
    "countCells (\<lambda>s. isOpened s \<and> isMine s) b2 = countCells (\<lambda>s. isOpened s \<and> isMine s) b"
    by (simp_all add: floodRel_def)
  show "\<not> isGameOver (boardOf (openCell now b r c))"
    using shape f2(1) by auto
  show "openedCells (boardOf (openCell now b r c)) = target (boardOf (openCell now b r c))"
    if "isGameWon (boardOf (openCell now b r c))"
    using shape that f2(2) by auto
  show "countCells (\<lambda>s. isOpened s \<and> isMine s) (boardOf (openCell now b r c))
      = countCells (\<lambda>s. isOpened s \<and> isMine s) b"
    using shape f2(3) by auto
  show "countCells (\<lambda>s. \<not> isMine s) (boardOf (openCell now b r c)) = countCells (\<lambda>s. \<not> isMine s) b"
    using shape sc by auto
qed

lemma reach_opened:
  assumes g: "grows b b'" and s: "settled b b'" and o: "openedAt b' r c" and n: "\<not> openedAt b r c"
    and p: "(x, y) \<in> reach b r c"
  shows "openedAt b' x y"
  using p
proof (induction rule: reach.induct)
  case start
  show ?case by (rule o)
next
  case (step r1 c1 d)
  from reach_fresh [OF step.hyps(1)] n have "\<not> openedAt b r1 c1"
    by (auto dest: fresh_not_opened)
  with s step.IH have "processed b' r1 c1" by (simp add: settled_def)
  moreover have "zeroAt b' r1 c1" using step.hyps(2) by (simp add: zeroAt_grows [OF g])
  ultimately have nf: "\<not> fresh b' (r1 + fst d) (c1 + snd d)"
    using step.hyps(3) by (simp add: processed_def)
  from step.hyps(4) obtain u where u: "cellAt b (r1 + fst d) (c1 + snd d) = Some u"
    "\<not> isFlagged (state u)" "\<not> isMine (state u)" and out: "\<not> outOfRange b (r1 + fst d) (c1 + snd d)"
    by (auto simp: fresh_def split: option.splits)
  from grows_cellAt [OF g u(1)] obtain v where v: "cellAt b' (r1 + fst d) (c1 + snd d) = Some v"
    "sameCell u v" .
  with nf u out grows_outOfRange [OF g] show ?case
    by (auto simp: fresh_def openedAt_def sameCell_def)
qed

section \<open>The claim about the flood fill\<close>

text \<open>
  C3, as stated: on every board, \<open>openCell\<close> on a cell that is not a mine and has no
  mine around it opens its whole region. It fails on a board constructed with 1 by 3
  cells and 1 mine on which \<open>startGame\<close> was never called: \<open>openCell(0, 1)\<close> opens
  the cells (0, 1) and (0, 0), finds two opened cells, declares the game won and
  leaves (0, 2) closed, although it belongs to the region.
\<close>

theorem C3_unstarted_board_counterexample:
  "\<not> isGameOver (newBoard strip) \<and> \<not> isGameWon (newBoard strip)
   \<and> fresh (newBoard strip) 0 1 \<and> zeroAt (newBoard strip) 0 1
   \<and> (0, 2) \<in> reach (newBoard strip) 0 1
   \<and> \<not> openedAt (boardOf (openCell 0 (newBoard strip) 0 1)) 0 2"
proof -
  have a: "\<not> isGameOver (newBoard strip)" "\<not> isGameWon (newBoard strip)" by code_simp+
  have f: "fresh (newBoard strip) 0 1" by code_simp
  have z: "zeroAt (newBoard strip) 0 1" by code_simp
  have d: "(0, 1) \<in> set directions" by code_simp
  have f2: "fresh (newBoard strip) (0 + fst (0 :: int, 1 :: int)) (1 + snd (0 :: int, 1 :: int))"
    by code_simp
  from reach.step [OF reach.start z d f2] have r: "(0, 2) \<in> reach (newBoard strip) 0 1" by simp
  have n: "\<not> openedAt (boardOf (openCell 0 (newBoard strip) 0 1)) 0 2" by code_simp
  from a f z r n show ?thesis by blast
qed

text \<open>
  C3, amended: on every board reached by any sequence of calls from a constructed
  board, if the game is active and the board holds exactly the configured number of
  mines (as after every \<open>startGame\<close> that returns), \<open>openCell\<close> on a closed cell of the
  board that is not a mine returns; the opened cells are then exactly the cells opened
  before and the cells of the region of that cell, a set that does not depend on the
  order of the directions; every cell it opened besides the given one was closed,
  unflagged and not a mine; and the counter of opened cells has grown by the number
  of cells that became opened, so no cell was opened twice.
\<close>

theorem C3_flood_fill_opens_region:
  assumes "\<not> isGameOver (run ops (newBoard d))" and "\<not> isGameWon (run ops (newBoard d))"
    and "\<not> outOfRange (run ops (newBoard d)) r c"
    and "cellAt (run ops (newBoard d)) r c = Some cell"
    and "\<not> isOpened (state cell)" and "\<not> isMine (state cell)"
    and "int (countCells isMine (run ops (newBoard d))) = mines (run ops (newBoard d))"
  shows "returned (openCell now (run ops (newBoard d)) r c)
    \<and> (\<forall>r' c'. openedAt (boardOf (openCell now (run ops (newBoard d)) r c)) r' c'
          \<longleftrightarrow> openedAt (run ops (newBoard d)) r' c' \<or> (r', c') \<in> reach (run ops (newBoard d)) r c)
    \<and> (\<forall>r' c'. openedAt (boardOf (openCell now (run ops (newBoard d)) r c)) r' c'
          \<longrightarrow> \<not> openedAt (run ops (newBoard d)) r' c' \<longrightarrow> (r', c') \<noteq> (r, c)
          \<longrightarrow> fresh (run ops (newBoard d)) r' c')
    \<and> openedCells (boardOf (openCell now (run ops (newBoard d)) r c))
         - openedCells (run ops (newBoard d))
       = int (countCells isOpened (boardOf (openCell now (run ops (newBoard d)) r c)))
         - int (countCells isOpened (run ops (newBoard d)))"
proof -
  define b where "b = run ops (newBoard d)"
  define b' where "b' = boardOf (openCell now b r c)"
  note a = assms [folded b_def]
  have snd: "sound b" unfolding b_def by (rule sound_reachable)
  then have grid: "gridOK b" and listed: "minesListed b"
    and cnt: "openedCells b = int (safeOpened b)" by (simp_all add: sound_def)
  have mc: "minesClosed b" unfolding b_def by (rule minesClosed_reachable)
  have ret: "returned (openCell now b r c)" using grid listed a(3) by (rule openCell_returns)
  have g: "grows b b'" unfolding b'_def by (rule openCell_grows)
  note res = openCell_safe_result [OF a(1-6), of now, folded b'_def]
  have snd': "sound b'" unfolding b'_def using snd by (rule sound_openCell)
  have closed: "\<not> openedAt b r c" using a(4,5) by (simp add: openedAt_def)
  have safe: "\<not> isMine (state x)" if "cellAt b r c = Some x" for x using that a(4,6) by simp
  have sound_dir: "openedAt b x y \<or> (x, y) \<in> reach b r c" if "openedAt b' x y" for x y
    using flood_sound(1) [of b r c now x y] safe that by (simp add: b'_def)
  have complete_dir: "openedAt b' x y" if p: "(x, y) \<in> reach b r c" for x y
  proof (cases "isGameWon b'")
    case False
    with flood_complete(1) [OF grid a(1,3) safe, of now]
    have "openedAt b' r c" "settled b b'" by (simp_all add: b'_def)
    from reach_opened [OF g this(2,1) closed p] show ?thesis .
  next
    case True
    from a(3) have pos: "0 \<le> rows b" "0 \<le> cols b" by (auto simp: outOfRange_def)
    then have area: "int (nat (rows b) * nat (cols b)) = rows b * cols b" by simp
    have "countCells (\<lambda>_. True) b = countCells (\<lambda>s. \<not> isMine s) b + countCells isMine b"
      using countCells_split [of "\<lambda>_. True" b isMine] by simp
    with countCells_all [OF grid]
    have "int (countCells (\<lambda>s. \<not> isMine s) b + countCells isMine b)
        = int (nat (rows b) * nat (cols b))" by simp
    with area a(7) have "int (countCells (\<lambda>s. \<not> isMine s) b) = target b"
      by (simp add: target_def)
    moreover have "openedCells b' = int (safeOpened b')" using snd' by (simp add: sound_def)
    moreover have "openedCells b' = target b'" using res(2) True by simp
    moreover have "target b' = target b" using g by (rule grows_target)
    ultimately have all: "countCells (\<lambda>s. isOpened s \<and> \<not> isMine s) b' = countCells (\<lambda>s. \<not> isMine s) b'"
      using res(4) by (simp add: safeOpened_def)
    from reach_fresh [OF p] a(4,6) obtain u where u: "cellAt b x y = Some u" "\<not> isMine (state u)"
      by (auto simp: fresh_def split: option.splits)
    from grows_cellAt [OF g u(1)] obtain v where v: "cellAt b' x y = Some v" "sameCell u v" .
    with u(2) have "\<not> isMine (state v)" by (simp add: sameCell_def)
    from all_safe_opened [OF all v(1) this] v(1) show ?thesis by (simp add: openedAt_def)
  qed
  have exact: "openedAt b' x y \<longleftrightarrow> openedAt b x y \<or> (x, y) \<in> reach b r c" for x y
    using sound_dir [of x y] complete_dir [of x y] openedAt_grows [OF g, of x y] by blast
  have others: "fresh b x y" if "openedAt b' x y" "\<not> openedAt b x y" "(x, y) \<noteq> (r, c)" for x y
    using sound_dir [OF that(1)] that(2,3) reach_fresh [of x y b r c] by blast
  have "countCells (\<lambda>s. isOpened s \<and> isMine s) b = 0" using mc a(1) by (simp add: minesClosed_def)
  with countCells_split [of isOpened b isMine] cnt
  have c1: "openedCells b = int (countCells isOpened b)" by (simp add: safeOpened_def)
  have "countCells (\<lambda>s. isOpened s \<and> isMine s) b' = 0"
    using res(3) \<open>countCells (\<lambda>s. isOpened s \<and> isMine s) b = 0\<close> by simp
  with countCells_split [of isOpened b' isMine] snd'
  have c2: "openedCells b' = int (countCells isOpened b')" by (simp add: safeOpened_def sound_def)
  from ret exact others c1 c2 show ?thesis unfolding b'_def b_def by simp
qed

theorem C3_flood_fill_opens_region_witness:
  "\<not> isGameOver (run [StartGame zeroOracle 0 0 0] (newBoard small))
   \<and> \<not> isGameWon (run [StartGame zeroOracle 0 0 0] (newBoard small))
   \<and> \<not> outOfRange (run [StartGame zeroOracle 0 0 0] (newBoard small)) 0 0
   \<and> cellAt (run [StartGame zeroOracle 0 0 0] (newBoard small)) 0 0
       = Some (the (cellAt (run [StartGame zeroOracle 0 0 0] (newBoard small)) 0 0))
   \<and> \<not> isOpened (state (the (cellAt (run [StartGame zeroOracle 0 0 0] (newBoard small)) 0 0)))
   \<and> \<not> isMine (state (the (cellAt (run [StartGame zeroOracle 0 0 0] (newBoard small)) 0 0)))
   \<and> adjacentMines (state (the (cellAt (run [StartGame zeroOracle 0 0 0] (newBoard small)) 0 0))) = 0
   \<and> int (countCells isMine (run [StartGame zeroOracle 0 0 0] (newBoard small)))
       = mines (run [StartGame zeroOracle 0 0 0] (newBoard small))
   \<and> returned (openCell 1 (run [StartGame zeroOracle 0 0 0] (newBoard small)) 0 0)
   \<and> (openedAt (boardOf (openCell 1 (run [StartGame zeroOracle 0 0 0] (newBoard small)) 0 0)) 2 2
        \<longleftrightarrow> openedAt (run [StartGame zeroOracle 0 0 0] (newBoard small)) 2 2
          \<or> (2, 2) \<in> reach (run [StartGame zeroOracle 0 0 0] (newBoard small)) 0 0)
   \<and> openedAt (boardOf (openCell 1 (run [StartGame zeroOracle 0 0 0] (newBoard small)) 0 0)) 2 2"
proof -
  have h1: "\<not> isGameOver (run [StartGame zeroOracle 0 0 0] (newBoard small))" by code_simp
  have h2: "\<not> isGameWon (run [StartGame zeroOracle 0 0 0] (newBoard small))" by code_simp
  have h3: "\<not> outOfRange (run [StartGame zeroOracle 0 0 0] (newBoard small)) 0 0" by code_simp
  have h4: "cellAt (run [StartGame zeroOracle 0 0 0] (newBoard small)) 0 0
       = Some (the (cellAt (run [StartGame zeroOracle 0 0 0] (newBoard small)) 0 0))" by code_simp
  have h5: "\<not> isOpened (state (the (cellAt (run [StartGame zeroOracle 0 0 0] (newBoard small)) 0 0)))"
    by code_simp
  have h6: "\<not> isMine (state (the (cellAt (run [StartGame zeroOracle 0 0 0] (newBoard small)) 0 0)))"
    by code_simp
  have h7: "int (countCells isMine (run [StartGame zeroOracle 0 0 0] (newBoard small)))
       = mines (run [StartGame zeroOracle 0 0 0] (newBoard small))" by code_simp
  have z: "adjacentMines (state (the (cellAt (run [StartGame zeroOracle 0 0 0] (newBoard small)) 0 0))) = 0"
    by code_simp
  have o: "openedAt (boardOf (openCell 1 (run [StartGame zeroOracle 0 0 0] (newBoard small)) 0 0)) 2 2"
    by code_simp
  from C3_flood_fill_opens_region [OF h1 h2 h3 h4 h5 h6 h7, of 1] h1 h2 h3 h4 h5 h6 h7 z o
  show ?thesis by blast
qed

end
